theory Spec2Isabelle
  imports Main "HOL-Library.Word"
begin

section \<open>The weekly relay scheduler of nod\_mcu\_sunete.ino\<close>

text \<open>
  The sketch keeps its state in globals: the week table \<open>weekEvents[7][64]\<close> with the
  row counts \<open>weekCount[7]\<close>, the relay flag \<open>relayOn\<close>, the switch-off time
  \<open>relayOffAtMs\<close> and \<open>lastYDay\<close>. Here the globals are the fields of one record that
  every function takes and returns. A row of the table together with its count is the
  list of its first \<open>weekCount[d]\<close> entries: no function of the sketch reads an entry at
  or beyond the count. The board is an ESP8266, where \<open>int\<close>, \<open>long\<close> and
  \<open>unsigned long\<close> have 32 bits and \<open>char\<close> is unsigned.
\<close>

subsection \<open>Data\<close>

record Event =
  hh :: int
  mm :: int
  duration :: int
  enabled :: bool
  firedToday :: bool

datatype level = LOW | HIGH

text \<open>
  What ArduinoJson hands to the sketch: a parsed document. An object is the list of
  its members as the library holds them, one for each key. Numbers are integers here;
  a document with a fractional number is outside the model.
\<close>

datatype json =
    JNull
  | JBool bool
  | JInt int
  | JStr string
  | JArr "json list"
  | JObj "(string \<times> json) list"

text \<open>
  The content of \<open>/schedule_week.json\<close>: bytes that \<open>deserializeJson\<close> rejects, or
  the document it returns.
\<close>

datatype stored = Garbage | Parsed json

text \<open>
  \<open>pin_writes\<close> is the sequence of levels given to \<open>digitalWrite(RELAY_PIN, _)\<close>, oldest
  first. \<open>fs_file\<close> is the schedule file (\<open>None\<close> when \<open>LittleFS.exists\<close> is false),
  \<open>fs_readable\<close> and \<open>fs_writable\<close> say whether \<open>LittleFS.open\<close> succeeds for
  \<open>"r"\<close> and for \<open>"w"\<close>, and \<open>fs_writes\<close> lists the documents serialised into the
  file, oldest first.
\<close>

record state =
  weekEvents :: "Event list list"
  relayOn :: bool
  relayOffAtMs :: "32 word"
  lastYDay :: int
  pin_writes :: "level list"
  fs_file :: "stored option"
  fs_readable :: bool
  fs_writable :: bool
  fs_writes :: "json list"

definition MAX_EVENTS_PER_DAY :: nat where
  "MAX_EVENTS_PER_DAY = 64"

definition RELAY_ACTIVE_LOW :: bool where
  "RELAY_ACTIVE_LOW = True"

subsection \<open>Relay\<close>

definition relayWrite :: "bool \<Rightarrow> state \<Rightarrow> state" where
  "relayWrite on s =
     s\<lparr>relayOn := on,
       pin_writes := pin_writes s @
         [if RELAY_ACTIVE_LOW then (if on then LOW else HIGH)
          else (if on then HIGH else LOW)]\<rparr>"

text \<open>
  \<open>relayPulse seconds ms\<close>: \<open>ms\<close> is the value \<open>millis()\<close> returns inside the call.
  \<open>(unsigned long)seconds * 1000UL\<close> and the addition are taken modulo \<open>2^32\<close>.
\<close>

definition relayPulse :: "int \<Rightarrow> 32 word \<Rightarrow> state \<Rightarrow> state" where
  "relayPulse seconds ms s =
     (let seconds' = (if seconds < 1 then 1 else seconds)
      in (relayWrite True s)\<lparr>relayOffAtMs := ms + word_of_int seconds' * 1000\<rparr>)"

subsection \<open>Clock\<close>

record tm =
  tm_hour :: int
  tm_min :: int
  tm_sec :: int
  tm_yday :: int
  tm_wday :: int

text \<open>\<open>getLocal\<close> returns \<open>(hh, mm, ss, yday, wday)\<close> with Monday as day 0.\<close>

definition getLocal :: "tm \<Rightarrow> int \<times> int \<times> int \<times> int \<times> int" where
  "getLocal lt =
     (let wd = tm_wday lt
      in (tm_hour lt, tm_min lt, tm_sec lt, tm_yday lt, (if wd = 0 then 6 else wd - 1)))"

subsection \<open>Time strings\<close>

text \<open>
  \<open>t[k] - '0'\<close> on an unsigned \<open>char\<close>, computed in \<open>int\<close>. The callers check
  \<open>strlen(t) \<ge> 5\<close> first, or pass a literal of five characters.
\<close>

definition digit_at :: "string \<Rightarrow> nat \<Rightarrow> int" where
  "digit_at t k = int (of_char (t ! k) :: nat) - 48"

definition parseHH :: "string \<Rightarrow> int" where
  "parseHH t = digit_at t 0 * 10 + digit_at t 1"

definition parseMM :: "string \<Rightarrow> int" where
  "parseMM t = digit_at t 3 * 10 + digit_at t 4"

subsection \<open>ArduinoJson accessors\<close>

text \<open>
  \<open>o[key]\<close> is null when \<open>o\<close> is not an object or has no such member.
  \<open>v | d\<close> is the value of \<open>v\<close> when it has the type of the default \<open>d\<close>, and \<open>d\<close>
  otherwise; an integer has type \<open>int\<close> when it fits 32 bits.
\<close>

fun member :: "json \<Rightarrow> string \<Rightarrow> json" where
  "member (JObj kvs) k = (case map_of kvs k of None \<Rightarrow> JNull | Some v \<Rightarrow> v)"
| "member _ k = JNull"

fun or_str :: "json \<Rightarrow> string \<Rightarrow> string" where
  "or_str (JStr x) d = x"
| "or_str _ d = d"

fun or_int :: "json \<Rightarrow> int \<Rightarrow> int" where
  "or_int (JInt i) d = (if - (2 ^ 31) \<le> i \<and> i < 2 ^ 31 then i else d)"
| "or_int _ d = d"

fun or_bool :: "json \<Rightarrow> bool \<Rightarrow> bool" where
  "or_bool (JBool b) d = b"
| "or_bool _ d = d"

fun is_array :: "json \<Rightarrow> bool" where
  "is_array (JArr xs) = True"
| "is_array _ = False"

text \<open>\<open>v.as<JsonArray>()\<close>: the elements, none when \<open>v\<close> is not an array.\<close>

fun as_array :: "json \<Rightarrow> json list" where
  "as_array (JArr xs) = xs"
| "as_array _ = []"

subsection \<open>Storage\<close>

text \<open>\<open>snprintf(t, 6, "%02d:%02d", hh, mm)\<close>: at most five characters are kept.\<close>

fun dec :: "nat \<Rightarrow> string" where
  "dec n = (if n < 10 then [char_of (48 + n)] else dec (n div 10) @ [char_of (48 + n mod 10)])"

definition fmt_02d :: "int \<Rightarrow> string" where
  "fmt_02d v =
     (if v < 0 then CHR ''-'' # dec (nat (- v))
      else if v < 10 then CHR ''0'' # dec (nat v)
      else dec (nat v))"

definition time_str :: "Event \<Rightarrow> string" where
  "time_str e = take 5 (fmt_02d (hh e) @ '':'' @ fmt_02d (mm e))"

definition event_json :: "Event \<Rightarrow> json" where
  "event_json e =
     JObj [(''time'', JStr (time_str e)),
           (''duration'', JInt (duration e)),
           (''enabled'', JBool (enabled e))]"

text \<open>The document of the whole table: seven arrays, every event with its three members.\<close>

definition week_json :: "Event list list \<Rightarrow> json" where
  "week_json w = JObj [(''days'', JArr (map (\<lambda>d. JArr (map event_json (w ! d))) [0..<7]))]"

text \<open>
  The document of \<open>saveWeekToFS\<close> is a \<open>StaticJsonDocument<12000>\<close>: a pool of 12000
  bytes that never grows. The library is not part of the sketch; the model follows
  ArduinoJson 6 from version 6.16 on, as built for this 32-bit board. Every array
  element and every object member takes a slot of 16 bytes from the pool; a key
  given as a literal is kept by its address, and a string given as a \<open>char\<close> array
  (the time \<open>t\<close>) is copied into the pool with its terminator, unless the pool already
  holds an equal string. A slot that does not fit is not added, and what the sketch
  then puts under it is dropped; a string that does not fit leaves its member null.
\<close>

definition DOC_CAPACITY :: nat where
  "DOC_CAPACITY = 12000"

definition SLOT_SIZE :: nat where
  "SLOT_SIZE = 16"

record pool =
  pool_free :: nat
  pool_strings :: "string list"

definition alloc_slot :: "pool \<Rightarrow> pool option" where
  "alloc_slot p =
     (if SLOT_SIZE \<le> pool_free p then Some (p\<lparr>pool_free := pool_free p - SLOT_SIZE\<rparr>) else None)"

definition copy_string :: "string \<Rightarrow> pool \<Rightarrow> pool option" where
  "copy_string t p =
     (if t \<in> set (pool_strings p) then Some p
      else if length t + 1 \<le> pool_free p
        then Some (p\<lparr>pool_free := pool_free p - (length t + 1), pool_strings := pool_strings p @ [t]\<rparr>)
        else None)"

text \<open>\<open>o[key] = v\<close> for a number or a boolean \<open>v\<close>, on the members built so far.\<close>

definition set_member :: "string \<Rightarrow> json \<Rightarrow> pool \<times> (string \<times> json) list \<Rightarrow> pool \<times> (string \<times> json) list" where
  "set_member k v pm =
     (case alloc_slot (fst pm) of
        None \<Rightarrow> pm
      | Some p \<Rightarrow> (p, snd pm @ [(k, v)]))"

text \<open>\<open>o["time"] = t\<close>.\<close>

definition set_time :: "string \<Rightarrow> pool \<times> (string \<times> json) list \<Rightarrow> pool \<times> (string \<times> json) list" where
  "set_time t pm =
     (case alloc_slot (fst pm) of
        None \<Rightarrow> pm
      | Some p \<Rightarrow>
          (case copy_string t p of
             None \<Rightarrow> (p, snd pm @ [(''time'', JNull)])
           | Some p' \<Rightarrow> (p', snd pm @ [(''time'', JStr t)])))"

text \<open>
  The body of the inner loop: \<open>arr.createNestedObject()\<close> and the three assignments.
  Without a slot for the object nothing is added to the array.
\<close>

definition add_event :: "Event \<Rightarrow> pool \<Rightarrow> pool \<times> json option" where
  "add_event e p =
     (case alloc_slot p of
        None \<Rightarrow> (p, None)
      | Some p1 \<Rightarrow>
          (let pm = set_member ''enabled'' (JBool (enabled e))
                      (set_member ''duration'' (JInt (duration e))
                         (set_time (time_str e) (p1, [])))
           in (fst pm, Some (JObj (snd pm)))))"

fun add_events :: "Event list \<Rightarrow> pool \<Rightarrow> json list \<Rightarrow> pool \<times> json list" where
  "add_events [] p acc = (p, acc)"
| "add_events (e # es) p acc =
     (case add_event e p of
        (p', None) \<Rightarrow> add_events es p' acc
      | (p', Some obj) \<Rightarrow> add_events es p' (acc @ [obj]))"

text \<open>The outer loop: \<open>days.createNestedArray()\<close> and the events of the row.\<close>

fun add_days :: "Event list list \<Rightarrow> pool \<Rightarrow> json list \<Rightarrow> pool \<times> json list" where
  "add_days [] p acc = (p, acc)"
| "add_days (row # rows) p acc =
     (case alloc_slot p of
        None \<Rightarrow> add_days rows p acc
      | Some p1 \<Rightarrow>
          (case add_events row p1 [] of
             (p2, objs) \<Rightarrow> add_days rows p2 (acc @ [JArr objs])))"

text \<open>The document that \<open>saveWeekToFS\<close> has built when it opens the file.\<close>

definition build_week_doc :: "Event list list \<Rightarrow> json" where
  "build_week_doc w =
     (case alloc_slot \<lparr>pool_free = DOC_CAPACITY, pool_strings = []\<rparr> of
        None \<Rightarrow> JNull
      | Some p \<Rightarrow> JObj [(''days'', JArr (snd (add_days (map (\<lambda>d. w ! d) [0..<7]) p [])))])"

text \<open>
  \<open>loadWeekFromFS\<close> reads the file into a \<open>StaticJsonDocument<12000>\<close> as well. Reading
  from a file, the library takes a slot for every element and every member and
  copies every key and every string value, equal strings once; a text that needs
  more than the pool is refused with an error. (While it reads a string the library
  holds it in the free part of the pool; in the document of a table a slot of 16
  bytes follows every string, which is at most 8 characters long, so the total
  decides.)
\<close>

fun doc_slots :: "json \<Rightarrow> nat" where
  "doc_slots (JArr xs) = sum_list (map (\<lambda>x. SLOT_SIZE + doc_slots x) xs)"
| "doc_slots (JObj kvs) = sum_list (map (\<lambda>kv. SLOT_SIZE + doc_slots (snd kv)) kvs)"
| "doc_slots _ = 0"

fun doc_strings :: "json \<Rightarrow> string list" where
  "doc_strings (JStr t) = [t]"
| "doc_strings (JArr xs) = concat (map doc_strings xs)"
| "doc_strings (JObj kvs) = concat (map (\<lambda>kv. fst kv # doc_strings (snd kv)) kvs)"
| "doc_strings _ = []"

definition parse_bytes :: "json \<Rightarrow> nat" where
  "parse_bytes doc = doc_slots doc + sum_list (map (\<lambda>t. length t + 1) (remdups (doc_strings doc)))"

text \<open>What \<open>deserializeJson\<close> in \<open>loadWeekFromFS\<close> makes of the text of a document.\<close>

definition read_back :: "json \<Rightarrow> stored" where
  "read_back doc = (if parse_bytes doc \<le> DOC_CAPACITY then Parsed doc else Garbage)"

text \<open>
  \<open>saveWeekToFS\<close> builds the document of all seven days, opens the file for writing and
  serialises the document into it. It returns true when the file opened, whatever
  fitted into the document. \<open>fs_file\<close> holds what a later \<open>deserializeJson\<close> makes of
  the file.
\<close>

definition saveWeekToFS :: "state \<Rightarrow> bool \<times> state" where
  "saveWeekToFS s =
     (let doc = build_week_doc (weekEvents s)
      in if \<not> fs_writable s then (False, s)
         else (True, s\<lparr>fs_file := Some (read_back doc), fs_writes := fs_writes s @ [doc]\<rparr>))"

definition default_times :: "string list" where
  "default_times =
     [''00:10'', ''00:15'', ''02:00'', ''02:30'', ''04:00'', ''04:15'', ''06:30'',
      ''07:55'', ''08:00'', ''10:00'', ''10:08'', ''10:10'', ''12:00'', ''12:20'', ''12:35'', ''12:40'',
      ''15:00'', ''15:08'', ''15:10'', ''17:00'', ''17:10'', ''17:15'', ''20:00'', ''20:15'', ''20:20'', ''22:30'']"

text \<open>
  One day of \<open>seedDefaultWeek\<close>: the loop appends the times in order while
  \<open>i < n\<close> and the count is below the capacity.
\<close>

definition seed_day :: "Event list" where
  "seed_day =
     take MAX_EVENTS_PER_DAY
       (map (\<lambda>t. \<lparr>hh = parseHH t, mm = parseMM t, duration = 5, enabled = True, firedToday = False\<rparr>)
          default_times)"

definition seedDefaultWeek :: "state \<Rightarrow> state" where
  "seedDefaultWeek s = s\<lparr>weekEvents := map (\<lambda>d. seed_day) [0..<7]\<rparr>"

text \<open>
  The loop \<open>for(JsonObject o : arr)\<close> that \<open>loadWeekFromFS\<close> and \<open>saveDayFromJson\<close>
  share, statement for statement. \<open>acc\<close> holds the entries written so far, so
  \<open>length acc\<close> is \<open>weekCount[d]\<close>.
\<close>

fun read_events :: "json list \<Rightarrow> Event list \<Rightarrow> Event list" where
  "read_events [] acc = acc"
| "read_events (obj # rest) acc =
     (if length acc \<ge> MAX_EVENTS_PER_DAY then acc
      else let t = or_str (member obj ''time'') []
        in if length t < 5 then read_events rest acc
           else let h = parseHH t; m = parseMM t
             in if h < 0 \<or> h > 23 \<or> m < 0 \<or> m > 59 then read_events rest acc
                else let d = or_int (member obj ''duration'') 5
                  in read_events rest
                       (acc @ [\<lparr>hh = h, mm = m,
                                duration = (if d < 1 then 1 else d),
                                enabled = or_bool (member obj ''enabled'') True,
                                firedToday = False\<rparr>]))"

definition loadWeekFromFS :: "state \<Rightarrow> bool \<times> state" where
  "loadWeekFromFS s =
     (case fs_file s of
        None \<Rightarrow> saveWeekToFS (seedDefaultWeek s)
      | Some content \<Rightarrow>
          if \<not> fs_readable s then (False, s)
          else (case content of
                  Garbage \<Rightarrow> (False, s)
                | Parsed doc \<Rightarrow>
                    if \<not> is_array (member doc ''days'') then (False, s)
                    else let days = as_array (member doc ''days'')
                      in if length days \<noteq> 7 then (False, s)
                         else (True, s\<lparr>weekEvents :=
                                 map (\<lambda>d. read_events (as_array (days ! d)) []) [0..<7]\<rparr>)))"

text \<open>
  \<open>body\<close> is what \<open>deserializeJson\<close> makes of the request text: an error, or the
  document.
\<close>

definition saveDayFromJson :: "int \<Rightarrow> stored \<Rightarrow> state \<Rightarrow> bool \<times> state" where
  "saveDayFromJson day body s =
     (if day < 0 \<or> day > 6 then (False, s)
      else (case body of
              Garbage \<Rightarrow> (False, s)
            | Parsed doc \<Rightarrow>
                if \<not> is_array doc then (False, s)
                else saveWeekToFS
                       (s\<lparr>weekEvents := (weekEvents s)[nat day := read_events (as_array doc) []]\<rparr>)))"

text \<open>The schedule part of \<open>setup\<close>: load, and on failure seed the defaults and save.\<close>

definition setup_load :: "state \<Rightarrow> state" where
  "setup_load s =
     (case loadWeekFromFS s of
        (True, s1) \<Rightarrow> s1
      | (False, s1) \<Rightarrow> snd (saveWeekToFS (seedDefaultWeek s1)))"

subsection \<open>Scheduler tick\<close>

text \<open>The block of \<open>schedulerTick\<close> that resets the fired flags on a day change.\<close>

definition day_change :: "int \<Rightarrow> state \<Rightarrow> state" where
  "day_change yday s =
     (if lastYDay s \<noteq> yday
      then s\<lparr>weekEvents := map (map (\<lambda>e. e\<lparr>firedToday := False\<rparr>)) (weekEvents s),
             lastYDay := yday\<rparr>
      else s)"

text \<open>
  The relay auto-off block: \<open>(long)(millis() - relayOffAtMs) >= 0\<close>, with \<open>ms\<close> the
  value of \<open>millis()\<close> there.
\<close>

definition auto_off_due :: "32 word \<Rightarrow> 32 word \<Rightarrow> bool" where
  "auto_off_due ms off_at = (0 \<le> sint (ms - off_at))"

definition auto_off :: "32 word \<Rightarrow> state \<Rightarrow> state" where
  "auto_off ms s = (if relayOn s \<and> auto_off_due ms (relayOffAtMs s) then relayWrite False s else s)"

text \<open>
  The loop over today's events. Every iteration before the one that breaks only
  continues, so the loop is the search for the index at which it breaks
  (\<open>first_due\<close>, \<open>None\<close> when it runs to the end) followed by the body of that
  iteration (\<open>fire_event\<close>).
\<close>

fun first_due :: "int \<Rightarrow> int \<Rightarrow> Event list \<Rightarrow> nat option" where
  "first_due h m [] = None"
| "first_due h m (e # es) =
     (if \<not> enabled e then map_option Suc (first_due h m es)
      else if firedToday e then map_option Suc (first_due h m es)
      else if hh e = h \<and> mm e = m then Some 0
      else map_option Suc (first_due h m es))"

definition fire_event :: "nat \<Rightarrow> nat \<Rightarrow> 32 word \<Rightarrow> state \<Rightarrow> state" where
  "fire_event wday i ms s =
     (let e = weekEvents s ! wday ! i;
          s' = relayPulse (duration e) ms s
      in s'\<lparr>weekEvents := (weekEvents s')[wday := (weekEvents s' ! wday)[i := e\<lparr>firedToday := True\<rparr>]]\<rparr>)"

text \<open>
  \<open>schedulerTick lt ms_off ms_pulse\<close>: \<open>lt\<close> is the local time \<open>getLocal\<close> reads,
  \<open>ms_off\<close> the value of \<open>millis()\<close> in the auto-off test and \<open>ms_pulse\<close> its value
  inside \<open>relayPulse\<close>.
\<close>

definition schedulerTick :: "tm \<Rightarrow> 32 word \<Rightarrow> 32 word \<Rightarrow> state \<Rightarrow> state" where
  "schedulerTick lt ms_off ms_pulse s =
     (case getLocal lt of (h, m, ss, yday, wday) \<Rightarrow>
        let s1 = day_change yday s;
            s2 = auto_off ms_off s1
        in if ss \<noteq> 0 then s2
           else (case first_due h m (weekEvents s2 ! nat wday) of
                   None \<Rightarrow> s2
                 | Some i \<Rightarrow> fire_event (nat wday) i ms_pulse s2))"

text \<open>
  The event whose pulse a tick triggers, as (day, index): the iteration at which the
  loop of that tick breaks.
\<close>

definition tick_fires :: "tm \<Rightarrow> state \<Rightarrow> (nat \<times> nat) option" where
  "tick_fires lt s =
     (case getLocal lt of (h, m, ss, yday, wday) \<Rightarrow>
        if ss \<noteq> 0 then None
        else map_option (\<lambda>i. (nat wday, i))
               (first_due h m (weekEvents (day_change yday s) ! nat wday)))"

subsection \<open>Next event (handleHaState)\<close>

definition delta_min :: "int \<Rightarrow> int \<Rightarrow> int \<Rightarrow> nat \<Rightarrow> Event \<Rightarrow> int" where
  "delta_min h m wday d e =
     (let deltaDay = (if int d - wday < 0 then int d - wday + 7 else int d - wday);
          nowMin = h * 60 + m;
          evMin = hh e * 60 + mm e
      in if deltaDay = 0
         then (if evMin - nowMin < 0 then evMin - nowMin + 7 * 24 * 60 else evMin - nowMin)
         else deltaDay * 24 * 60 + (evMin - nowMin))"

text \<open>
  One iteration of the inner loop. The accumulator is \<open>(bestDay, bestIdx)\<close>, \<open>None\<close>
  for the initial \<open>-1, -1\<close>, and \<open>bestDeltaMin\<close>.
\<close>

definition ha_step ::
  "int \<Rightarrow> int \<Rightarrow> int \<Rightarrow> Event list list \<Rightarrow> nat \<times> nat \<Rightarrow> (nat \<times> nat) option \<times> int
     \<Rightarrow> (nat \<times> nat) option \<times> int" where
  "ha_step h m wday w p best =
     (let e = w ! fst p ! snd p
      in if \<not> enabled e then best
         else let delta = delta_min h m wday (fst p) e
           in if delta < snd best then (Some p, delta) else best)"

text \<open>The pairs \<open>(d, i)\<close> in the order the two nested loops visit them.\<close>

definition visit_order :: "Event list list \<Rightarrow> (nat \<times> nat) list" where
  "visit_order w = concat (map (\<lambda>d. map (\<lambda>i. (d, i)) [0..<length (w ! d)]) [0..<7])"

text \<open>
  The result is \<open>(next_day, next index, next_in_min)\<close>; \<open>None\<close> when \<open>bestDay\<close> stays
  negative and the reply carries no next event.
\<close>

definition next_event :: "int \<Rightarrow> int \<Rightarrow> int \<Rightarrow> Event list list \<Rightarrow> (nat \<times> nat \<times> int) option" where
  "next_event h m wday w =
     (case fold (ha_step h m wday w) (visit_order w) (None, 8 * 24 * 60) of
        (None, _) \<Rightarrow> None
      | (Some (d, i), delta) \<Rightarrow> Some (d, i, delta))"

subsection \<open>Derived notions and example inputs\<close>

text \<open>
  The three tests an iteration of the tick loop makes before it fires: the event is
  enabled, has not fired today and carries the current hour and minute.
\<close>

definition is_due :: "int \<Rightarrow> int \<Rightarrow> Event \<Rightarrow> bool" where
  "is_due h m e = (enabled e \<and> \<not> firedToday e \<and> hh e = h \<and> mm e = m)"

text \<open>The row of the table that \<open>getLocal\<close> selects.\<close>

definition today :: "tm \<Rightarrow> nat" where
  "today lt = nat (case getLocal lt of (h, m, ss, yday, wday) \<Rightarrow> wday)"

text \<open>The globals as their initialisers leave them, with an empty and writable file system.\<close>

definition boot_state :: state where
  "boot_state =
     \<lparr>weekEvents = [[], [], [], [], [], [], []], relayOn = False, relayOffAtMs = 0,
      lastYDay = - 1, pin_writes = [], fs_file = None, fs_readable = True,
      fs_writable = True, fs_writes = []\<rparr>"

definition bell :: "int \<Rightarrow> int \<Rightarrow> int \<Rightarrow> bool \<Rightarrow> Event" where
  "bell h m d f = \<lparr>hh = h, mm = m, duration = d, enabled = True, firedToday = f\<rparr>"

text \<open>Wednesday with two events at 08:00, and the clock at Wednesday 08:00:00.\<close>

definition two_bells :: state where
  "two_bells =
     boot_state\<lparr>weekEvents := [[], [], [bell 8 0 5 False, bell 8 0 7 False], [], [], [], []],
                lastYDay := 100\<rparr>"

definition wed_0800 :: tm where
  "wed_0800 = \<lparr>tm_hour = 8, tm_min = 0, tm_sec = 0, tm_yday = 100, tm_wday = 3\<rparr>"

text \<open>
  A run of ticks, each with its clock and counter readings, and the events the ticks
  of the run fire, in order.
\<close>

fun run_ticks :: "(tm \<times> 32 word \<times> 32 word) list \<Rightarrow> state \<Rightarrow> state" where
  "run_ticks [] s = s"
| "run_ticks ((lt, ms_off, ms_pulse) # rest) s = run_ticks rest (schedulerTick lt ms_off ms_pulse s)"

fun ticks_fired :: "(tm \<times> 32 word \<times> 32 word) list \<Rightarrow> state \<Rightarrow> (nat \<times> nat) option list" where
  "ticks_fired [] s = []"
| "ticks_fired ((lt, ms_off, ms_pulse) # rest) s =
     tick_fires lt s # ticks_fired rest (schedulerTick lt ms_off ms_pulse s)"

text \<open>Wednesday after its first 08:00 event has fired.\<close>

definition rung :: state where
  "rung = boot_state\<lparr>weekEvents := [[], [], [bell 8 0 5 True, bell 8 0 7 False], [], [], [], []],
                      lastYDay := 100\<rparr>"

text \<open>
  Sunday, day 100, after its 23:00 event has fired, with a Monday event at 00:00; and the
  clock at Monday 00:00:00 of day 101.
\<close>

definition sunday_night :: state where
  "sunday_night =
     boot_state\<lparr>weekEvents := [[bell 0 0 5 False], [], [], [], [], [], [bell 23 0 5 True]],
                lastYDay := 100\<rparr>"

definition monday_midnight :: tm where
  "monday_midnight = \<lparr>tm_hour = 0, tm_min = 0, tm_sec = 0, tm_yday = 101, tm_wday = 1\<rparr>"

text \<open>
  The invariant of the table: every entry carries an hour in 0..23 and a minute in
  0..59. \<open>seedDefaultWeek\<close>, \<open>loadWeekFromFS\<close> and \<open>saveDayFromJson\<close> write no other
  entries.
\<close>

definition valid_time :: "Event \<Rightarrow> bool" where
  "valid_time e = (0 \<le> hh e \<and> hh e \<le> 23 \<and> 0 \<le> mm e \<and> mm e \<le> 59)"

text \<open>A table with Monday 07:30 and Wednesday 09:00 and 18:00.\<close>

definition wednesday_bell :: "Event list list" where
  "wednesday_bell = [[bell 7 30 5 False], [], [bell 9 0 5 False, bell 18 0 5 False], [], [], [], []]"

text \<open>
  The pieces of one iteration of the loop over the incoming array: the time string of
  an element, the two tests on it that let the element through, and the entry the
  loop then appends. \<open>stored_row\<close> is the row the loop leaves behind, as
  \<open>read_events_stored_row\<close> shows.
\<close>

definition entry_time :: "json \<Rightarrow> string" where
  "entry_time obj = or_str (member obj ''time'') []"

definition time_accepted :: "string \<Rightarrow> bool" where
  "time_accepted t =
     (\<not> length t < 5 \<and> \<not> (parseHH t < 0 \<or> parseHH t > 23 \<or> parseMM t < 0 \<or> parseMM t > 59))"

definition entry_event :: "json \<Rightarrow> Event" where
  "entry_event obj =
     \<lparr>hh = parseHH (entry_time obj), mm = parseMM (entry_time obj),
      duration = (if or_int (member obj ''duration'') 5 < 1 then 1
                  else or_int (member obj ''duration'') 5),
      enabled = or_bool (member obj ''enabled'') True,
      firedToday = False\<rparr>"

definition stored_row :: "json list \<Rightarrow> Event list" where
  "stored_row objs =
     take MAX_EVENTS_PER_DAY (map entry_event (filter (\<lambda>obj. time_accepted (entry_time obj)) objs))"

text \<open>
  The specification's notion of a well-formed time field, in its own words: \<open>HH:MM\<close>
  with exactly two digits each, hour 0 to 23 and minute 0 to 59. It is here to be
  compared with \<open>time_accepted\<close>, the test the code makes.
\<close>

definition is_digit :: "char \<Rightarrow> bool" where
  "is_digit c = (48 \<le> (of_char c :: nat) \<and> (of_char c :: nat) \<le> 57)"

definition spec_wellformed_hhmm :: "string \<Rightarrow> bool" where
  "spec_wellformed_hhmm t =
     (length t = 5 \<and> is_digit (t ! 0) \<and> is_digit (t ! 1) \<and> t ! 2 = CHR '':''
      \<and> is_digit (t ! 3) \<and> is_digit (t ! 4)
      \<and> parseHH t \<le> 23 \<and> parseMM t \<le> 59)"

text \<open>Documents: an element with only a time, and a schedule file with the given days.\<close>

definition time_entry :: "string \<Rightarrow> json" where
  "time_entry t = JObj [(''time'', JStr t)]"

definition week_doc :: "json list \<Rightarrow> json" where
  "week_doc days = JObj [(''days'', JArr days)]"


text \<open>The table \<open>seedDefaultWeek\<close> writes.\<close>

definition default_week :: "Event list list" where
  "default_week = map (\<lambda>d. seed_day) [0..<7]"

text \<open>
  Three schedule files: one with five day lists, one whose Monday holds a malformed time
  next to a good one, one whose Thursday holds the time \<open>12x3400\<close>.
\<close>

definition five_day_file :: state where
  "five_day_file =
     boot_state\<lparr>fs_file := Some (Parsed (week_doc [JArr [time_entry ''08:00''], JArr [], JArr [], JArr [], JArr []]))\<rparr>"

definition bad_time_file :: state where
  "bad_time_file =
     boot_state\<lparr>fs_file := Some (Parsed (week_doc
        [JArr [time_entry ''bad'', time_entry ''08:00''], JArr [], JArr [], JArr [], JArr [], JArr [], JArr []]))\<rparr>"

definition loose_time_file :: state where
  "loose_time_file =
     boot_state\<lparr>fs_file := Some (Parsed (week_doc
        [JArr [], JArr [], JArr [], JArr [time_entry ''12x3400''], JArr [], JArr [], JArr []]))\<rparr>"




text \<open>
  The invariant of the whole table: seven rows, each within the capacity, every time
  in range and every duration at least 1 and an \<open>int\<close> of the board.
\<close>

definition valid_table :: "Event list list \<Rightarrow> bool" where
  "valid_table w =
     (length w = 7
      \<and> (\<forall>row\<in>set w. length row \<le> MAX_EVENTS_PER_DAY
            \<and> (\<forall>e\<in>set row. valid_time e \<and> 1 \<le> duration e \<and> duration e < 2 ^ 31)))"

section \<open>Properties\<close>

subsection \<open>The 32-bit millisecond counter\<close>

lemma sint_nonneg_iff: "0 \<le> sint (w :: 32 word) \<longleftrightarrow> uint w < 2 ^ 31"
proof (cases "uint w < 2 ^ 31")
  case True
  have "0 \<le> uint w" by simp
  then have "signed_take_bit 31 (uint w) = uint w"
    using True by (intro signed_take_bit_int_eq_self) linarith+
  moreover have "sint w = signed_take_bit 31 (uint w)" by (simp add: sint_uint)
  ultimately have "sint w = uint w" by simp
  then show ?thesis using True by simp
next
  case False
  then have "signed_take_bit 31 (uint w) \<le> uint w - 2 ^ Suc 31"
    by (intro signed_take_bit_int_less_eq) simp
  moreover have "(2::int) ^ Suc 31 = 4294967296" by simp
  moreover have "uint w < 4294967296" using uint_lt2p [of w] by simp
  moreover have "sint w = signed_take_bit 31 (uint w)" by (simp add: sint_uint)
  ultimately have "sint w < 0" by linarith
  then show ?thesis using False by simp
qed

lemma auto_off_due_iff: "auto_off_due ms off_at \<longleftrightarrow> unat (ms - off_at) < 2 ^ 31"
  unfolding auto_off_due_def sint_nonneg_iff
  by (simp add: unat_eq_nat_uint nat_less_iff del: nat_uint_eq)

lemma diff_of_nat_reached:
  fixes t T :: nat
  assumes "T \<le> t" "t - T < 2 ^ 32"
  shows "unat (of_nat t - of_nat T :: 32 word) = t - T"
proof -
  have "(of_nat t - of_nat T :: 32 word) = of_nat (t - T)"
    using assms(1) by simp
  then show ?thesis using assms(2) by (simp add: unat_of_nat)
qed

lemma diff_of_nat_ahead:
  fixes t T :: nat
  assumes "t < T" "T - t \<le> 2 ^ 32"
  shows "unat (of_nat t - of_nat T :: 32 word) = (2 ^ 32 - (T - t)) mod 2 ^ 32"
proof -
  have "(of_nat t - of_nat T :: 32 word) = - of_nat (T - t)"
    using assms(1) by simp
  also have "\<dots> = of_nat (2 ^ 32 - (T - t))"
    using assms(2) by simp
  finally show ?thesis by (simp add: unat_of_nat)
qed

lemma due_true_time:
  fixes t T :: nat
  assumes "T \<le> t + 2 ^ 31" "t < T + 2 ^ 31"
  shows "unat (of_nat t - of_nat T :: 32 word) < 2 ^ 31 \<longleftrightarrow> T \<le> t"
proof (cases "T \<le> t")
  case True
  then have "unat (of_nat t - of_nat T :: 32 word) = t - T"
    using assms(2) by (intro diff_of_nat_reached) simp_all
  then show ?thesis using True assms(2) by simp
next
  case False
  then have lt: "t < T" by simp
  have "unat (of_nat t - of_nat T :: 32 word) = (2 ^ 32 - (T - t)) mod 2 ^ 32"
    using lt assms(1) by (intro diff_of_nat_ahead) simp_all
  also have "\<dots> = 2 ^ 32 - (T - t)" using lt by simp
  finally show ?thesis using False lt assms(1) by simp
qed

subsection \<open>Relay\<close>

lemma relayPulse_fields:
  "relayOn (relayPulse d ms s) = True"
  "relayOffAtMs (relayPulse d ms s) = ms + word_of_int (if d < 1 then 1 else d) * 1000"
  "pin_writes (relayPulse d ms s) = pin_writes s @ [LOW]"
  "weekEvents (relayPulse d ms s) = weekEvents s"
  "lastYDay (relayPulse d ms s) = lastYDay s"
  by (simp_all add: relayPulse_def relayWrite_def RELAY_ACTIVE_LOW_def Let_def)

lemma relayPulse_deadline_of_nat:
  "1 \<le> d \<Longrightarrow> relayOffAtMs (relayPulse d (of_nat t0) s) = of_nat (t0 + nat d * 1000)"
  by (simp add: relayPulse_fields)

lemma auto_off_fields:
  "auto_off ms s =
     (if relayOn s \<and> unat (ms - relayOffAtMs s) < 2 ^ 31
      then s\<lparr>relayOn := False, pin_writes := pin_writes s @ [HIGH]\<rparr> else s)"
  by (simp add: auto_off_def auto_off_due_iff relayWrite_def RELAY_ACTIVE_LOW_def)

lemma relayPulse_state:
  "relayPulse d ms s =
     s\<lparr>relayOn := True, pin_writes := pin_writes s @ [LOW],
       relayOffAtMs := ms + word_of_int (if d < 1 then 1 else d) * 1000\<rparr>"
  by (simp add: relayPulse_def relayWrite_def RELAY_ACTIVE_LOW_def Let_def)

text \<open>
  C4. Whatever the state of the relay, a second \<open>relayPulse\<close> overwrites the switch-off
  time of the first: after the two calls the relay flag is set, the pin has been
  written on (\<open>LOW\<close>) by each call, and \<open>relayOffAtMs\<close> is the time of the second call
  plus its (clamped) duration, the same as if the first call had not happened; nothing
  else in the state differs. For \<open>relayPulse(3)\<close> directly followed by
  \<open>relayPulse(10)\<close>, both at counter value \<open>t\<close>, the auto-off block changes nothing at
  every millisecond \<open>t + k\<close> with \<open>k < 10000\<close>, so the relay is on and the last level
  written to the pin is on (so also at 3 seconds); at \<open>t + 10000\<close> the block clears
  the flag and writes the off level (\<open>HIGH\<close>) to the pin (so not at 13 seconds). This
  holds also when the counter wraps in between.
\<close>

theorem relay_retrigger_last_wins:
  "relayPulse d2 t2 (relayPulse d1 t1 s) =
     s\<lparr>relayOn := True, pin_writes := pin_writes s @ [LOW, LOW],
       relayOffAtMs := t2 + word_of_int (if d2 < 1 then 1 else d2) * 1000\<rparr>
   \<and> relayOn (relayPulse d2 t2 (relayPulse d1 t1 s))
   \<and> pin_writes (relayPulse d2 t2 (relayPulse d1 t1 s)) = pin_writes s @ [LOW, LOW]
   \<and> relayOffAtMs (relayPulse d2 t2 (relayPulse d1 t1 s))
       = t2 + word_of_int (if d2 < 1 then 1 else d2) * 1000
   \<and> relayOffAtMs (relayPulse d2 t2 (relayPulse d1 t1 s)) = relayOffAtMs (relayPulse d2 t2 s)
   \<and> (\<forall>k<10000. auto_off (t + of_nat k) (relayPulse 10 t (relayPulse 3 t s))
                    = relayPulse 10 t (relayPulse 3 t s)
                \<and> relayOn (auto_off (t + of_nat k) (relayPulse 10 t (relayPulse 3 t s)))
                \<and> pin_writes (auto_off (t + of_nat k) (relayPulse 10 t (relayPulse 3 t s)))
                    = pin_writes s @ [LOW, LOW])
   \<and> auto_off (t + 10000) (relayPulse 10 t (relayPulse 3 t s)) =
       s\<lparr>relayOn := False, pin_writes := pin_writes s @ [LOW, LOW, HIGH],
         relayOffAtMs := t + 10000\<rparr>
   \<and> \<not> relayOn (auto_off (t + 10000) (relayPulse 10 t (relayPulse 3 t s)))
   \<and> pin_writes (auto_off (t + 10000) (relayPulse 10 t (relayPulse 3 t s)))
       = pin_writes s @ [LOW, LOW, HIGH]"
proof -
  let ?s2 = "relayPulse 10 t (relayPulse 3 t s)"
  have two: "relayPulse d2 t2 (relayPulse d1 t1 s) =
     s\<lparr>relayOn := True, pin_writes := pin_writes s @ [LOW, LOW],
       relayOffAtMs := t2 + word_of_int (if d2 < 1 then 1 else d2) * 1000\<rparr>" for d1 d2 t1 t2
    by (simp add: relayPulse_state)
  have stay: "auto_off (t + of_nat k) ?s2 = ?s2" if "k < 10000" for k :: nat
  proof -
    have "unat (of_nat k - of_nat 10000 :: 32 word) = (2 ^ 32 - (10000 - k)) mod 2 ^ 32"
      using that by (intro diff_of_nat_ahead) simp_all
    also have "\<dots> = 2 ^ 32 - (10000 - k)" using that by simp
    finally have "\<not> unat (of_nat k - 10000 :: 32 word) < 2 ^ 31" using that by simp
    then show ?thesis by (simp add: auto_off_fields relayPulse_fields)
  qed
  have stay': "auto_off (t + of_nat k) ?s2 = ?s2
                \<and> relayOn (auto_off (t + of_nat k) ?s2)
                \<and> pin_writes (auto_off (t + of_nat k) ?s2) = pin_writes s @ [LOW, LOW]"
    if "k < 10000" for k :: nat
    using stay [OF that] by (simp add: relayPulse_fields)
  have off: "auto_off (t + 10000) ?s2 =
       s\<lparr>relayOn := False, pin_writes := pin_writes s @ [LOW, LOW, HIGH],
         relayOffAtMs := t + 10000\<rparr>"
    by (simp add: auto_off_fields relayPulse_state)
  have off': "\<not> relayOn (auto_off (t + 10000) ?s2)"
    "pin_writes (auto_off (t + 10000) ?s2) = pin_writes s @ [LOW, LOW, HIGH]"
    unfolding off by simp_all
  show ?thesis
    by (intro conjI allI impI two off off' stay' [THEN conjunct1] stay' [THEN conjunct2, THEN conjunct1]
        stay' [THEN conjunct2, THEN conjunct2])
      (simp_all add: relayPulse_fields)
qed

theorem relay_retrigger_last_wins_witness:
  "relayPulse 10 4294962296 (relayPulse 3 4294962296 boot_state)
     = boot_state\<lparr>relayOn := True, pin_writes := [LOW, LOW], relayOffAtMs := 5000\<rparr>
   \<and> auto_off (4294962296 + 3000) (relayPulse 10 4294962296 (relayPulse 3 4294962296 boot_state))
     = boot_state\<lparr>relayOn := True, pin_writes := [LOW, LOW], relayOffAtMs := 5000\<rparr>
   \<and> auto_off (4294962296 + 9999) (relayPulse 10 4294962296 (relayPulse 3 4294962296 boot_state))
     = boot_state\<lparr>relayOn := True, pin_writes := [LOW, LOW], relayOffAtMs := 5000\<rparr>
   \<and> auto_off (4294962296 + 10000) (relayPulse 10 4294962296 (relayPulse 3 4294962296 boot_state))
     = boot_state\<lparr>relayOn := False, pin_writes := [LOW, LOW, HIGH], relayOffAtMs := 5000\<rparr>"
proof -
  let ?s = "relayPulse 10 4294962296 (relayPulse 3 4294962296 boot_state)"
  note th = relay_retrigger_last_wins [of 10 4294962296 3 4294962296 boot_state 4294962296]
  have k1: "(3000::nat) < 10000" and k2: "(9999::nat) < 10000" by simp_all
  from th k1 have a: "auto_off (4294962296 + of_nat 3000) ?s = ?s" by blast
  from th k2 have b: "auto_off (4294962296 + of_nat 9999) ?s = ?s" by blast
  from th have c: "?s = boot_state\<lparr>relayOn := True, pin_writes := pin_writes boot_state @ [LOW, LOW],
       relayOffAtMs := 4294962296 + word_of_int (if (10::int) < 1 then 1 else 10) * 1000\<rparr>"
    by blast
  from th have d: "auto_off (4294962296 + 10000) ?s =
       boot_state\<lparr>relayOn := False, pin_writes := pin_writes boot_state @ [LOW, LOW, HIGH],
         relayOffAtMs := 4294962296 + 10000\<rparr>" by blast
  have c': "?s = boot_state\<lparr>relayOn := True, pin_writes := [LOW, LOW], relayOffAtMs := 5000\<rparr>"
    unfolding c by (simp add: boot_state_def)
  have d': "auto_off (4294962296 + 10000) ?s
     = boot_state\<lparr>relayOn := False, pin_writes := [LOW, LOW, HIGH], relayOffAtMs := 5000\<rparr>"
    unfolding d by (simp add: boot_state_def)
  from a have a': "auto_off (4294962296 + 3000) ?s = ?s" by simp
  from b have b': "auto_off (4294962296 + 9999) ?s = ?s" by simp
  show ?thesis using a' b' c' d' by simp
qed

text \<open>
  C7, as the code has it. The auto-off block of the tick, for every state and every
  counter value \<open>ms\<close>. The block compares in the order of the wrapping counter: it
  takes \<open>ms\<close> to be at or past the switch-off time when \<open>ms\<close> lies less than
  \<open>2^31\<close> ms after \<open>relayOffAtMs\<close>, counted modulo \<open>2^32\<close>. If the relay is on and
  \<open>ms\<close> is at or past the switch-off time in this order, the block clears
  \<open>relayOn\<close> and writes the off level (\<open>HIGH\<close>, the relay being active low) to the
  pin, and changes nothing else; otherwise it changes nothing. Let \<open>t\<close> and \<open>T\<close> be
  the time now and the switch-off time in milliseconds since boot, not wrapped, with
  \<open>T\<close> at most \<open>2^31\<close> ms ahead of \<open>t\<close> and \<open>t\<close> less than \<open>2^31\<close> ms past
  \<open>T\<close>. Then the relay is switched off when it is on and \<open>T \<le> t\<close>, and nothing
  changes when it is off or \<open>t < T\<close>. A whole tick whose second is not 0 and whose
  day is the recorded one does exactly what this block does.
\<close>

theorem relay_auto_off_step:
  fixes t T :: nat
  shows
  "(relayOn s \<and> unat (ms - relayOffAtMs s) < 2 ^ 31 \<longrightarrow>
      auto_off ms s = s\<lparr>relayOn := False, pin_writes := pin_writes s @ [HIGH]\<rparr>)
   \<and> (\<not> relayOn s \<or> 2 ^ 31 \<le> unat (ms - relayOffAtMs s) \<longrightarrow> auto_off ms s = s)
   \<and> (relayOffAtMs s = of_nat T \<and> T \<le> t + 2 ^ 31 \<and> t < T + 2 ^ 31 \<longrightarrow>
        (relayOn s \<and> T \<le> t \<longrightarrow>
           auto_off (of_nat t) s = s\<lparr>relayOn := False, pin_writes := pin_writes s @ [HIGH]\<rparr>)
      \<and> (\<not> relayOn s \<or> t < T \<longrightarrow> auto_off (of_nat t) s = s))
   \<and> (tm_sec lt \<noteq> 0 \<and> lastYDay s = tm_yday lt \<longrightarrow>
        schedulerTick lt ms ms_pulse s = auto_off ms s)"
proof -
  have a: "(relayOn s \<and> unat (ms - relayOffAtMs s) < 2 ^ 31 \<longrightarrow>
      auto_off ms s = s\<lparr>relayOn := False, pin_writes := pin_writes s @ [HIGH]\<rparr>)
   \<and> (\<not> relayOn s \<or> 2 ^ 31 \<le> unat (ms - relayOffAtMs s) \<longrightarrow> auto_off ms s = s)"
    by (auto simp: auto_off_fields)
  have b: "(relayOn s \<and> T \<le> t \<longrightarrow>
           auto_off (of_nat t) s = s\<lparr>relayOn := False, pin_writes := pin_writes s @ [HIGH]\<rparr>)
      \<and> (\<not> relayOn s \<or> t < T \<longrightarrow> auto_off (of_nat t) s = s)"
    if w: "relayOffAtMs s = of_nat T \<and> T \<le> t + 2 ^ 31 \<and> t < T + 2 ^ 31"
  proof -
    from w have "unat (of_nat t - of_nat T :: 32 word) < 2 ^ 31 \<longleftrightarrow> T \<le> t"
      by (intro due_true_time) simp_all
    with w show ?thesis by (auto simp: auto_off_fields)
  qed
  have c: "tm_sec lt \<noteq> 0 \<and> lastYDay s = tm_yday lt \<longrightarrow>
        schedulerTick lt ms ms_pulse s = auto_off ms s"
    by (auto simp: schedulerTick_def getLocal_def day_change_def Let_def)
  from a b c show ?thesis by blast
qed

theorem relay_auto_off_step_witness:
  "auto_off 5000 (boot_state\<lparr>relayOn := True, relayOffAtMs := 4000\<rparr>)
     = boot_state\<lparr>relayOn := False, relayOffAtMs := 4000, pin_writes := [HIGH]\<rparr>
   \<and> auto_off 3000 (boot_state\<lparr>relayOn := True, relayOffAtMs := 4000\<rparr>)
     = boot_state\<lparr>relayOn := True, relayOffAtMs := 4000\<rparr>
   \<and> auto_off 5000 (boot_state\<lparr>relayOffAtMs := 4000\<rparr>) = boot_state\<lparr>relayOffAtMs := 4000\<rparr>
   \<and> auto_off (of_nat 4294967396) (boot_state\<lparr>relayOn := True, relayOffAtMs := of_nat 4294967196\<rparr>)
     = boot_state\<lparr>relayOn := False, relayOffAtMs := of_nat 4294967196, pin_writes := [HIGH]\<rparr>
   \<and> schedulerTick \<lparr>tm_hour = 8, tm_min = 0, tm_sec = 7, tm_yday = - 1, tm_wday = 2\<rparr> 5000 5000
        (boot_state\<lparr>relayOn := True, relayOffAtMs := 4000\<rparr>)
     = boot_state\<lparr>relayOn := False, relayOffAtMs := 4000, pin_writes := [HIGH]\<rparr>"
  using relay_auto_off_step [where s = "boot_state\<lparr>relayOn := True, relayOffAtMs := 4000\<rparr>"
      and ms = 5000 and ms_pulse = 5000 and t = 0 and T = 0
      and lt = "\<lparr>tm_hour = 8, tm_min = 0, tm_sec = 7, tm_yday = - 1, tm_wday = 2\<rparr>"]
    relay_auto_off_step [where s = "boot_state\<lparr>relayOn := True, relayOffAtMs := 4000\<rparr>" and ms = 3000]
    relay_auto_off_step [where s = "boot_state\<lparr>relayOffAtMs := 4000\<rparr>" and ms = 5000]
    relay_auto_off_step [where s = "boot_state\<lparr>relayOn := True, relayOffAtMs := of_nat 4294967196\<rparr>"
      and t = 4294967396 and T = 4294967196]
  by (simp add: boot_state_def)

text \<open>
  C7 as stated fails. A pulse of 3000000 seconds started at counter value 5000 sets
  \<open>relayOffAtMs\<close> to 3000005000. At counter value 6000 the relay is on and the
  switch-off time has not been reached, yet the auto-off block switches the relay
  off.
\<close>

theorem auto_off_before_deadline_counterexample:
  "relayOn (relayPulse 3000000 5000 boot_state)
   \<and> relayOffAtMs (relayPulse 3000000 5000 boot_state) = 3000005000
   \<and> unat (6000 :: 32 word) < unat (3000005000 :: 32 word)
   \<and> \<not> relayOn (auto_off 6000 (relayPulse 3000000 5000 boot_state))
   \<and> pin_writes (auto_off 6000 (relayPulse 3000000 5000 boot_state)) = [LOW, HIGH]"
  by (simp add: auto_off_fields relayPulse_fields boot_state_def)

text \<open>
  C10, as the code has it. \<open>t\<close> and \<open>T\<close> are the time now and the switch-off time in
  milliseconds since boot, not wrapped; the counter and \<open>relayOffAtMs\<close> hold them
  modulo \<open>2^32\<close>. Provided the switch-off time is at most \<open>2^31\<close> ms ahead of now and
  now is less than \<open>2^31\<close> ms past it, the auto-off test holds exactly when
  \<open>T \<le> t\<close>, and so does the condition that the difference modulo \<open>2^32\<close> is below
  \<open>2^31\<close>; the relay that a pulse of \<open>secs \<ge> 1\<close> seconds switched on at time
  \<open>t0\<close> is still on after the auto-off block exactly while \<open>t < t0 + 1000 * secs\<close>.
  This holds also when the counter wraps between the pulse and its end.
\<close>

theorem auto_off_wraparound:
  fixes t T t0 :: nat
  assumes "T \<le> t + 2 ^ 31" and "t < T + 2 ^ 31"
  shows "(auto_off_due (of_nat t) (of_nat T) \<longleftrightarrow> T \<le> t)
         \<and> (unat (of_nat t - of_nat T :: 32 word) < 2 ^ 31 \<longleftrightarrow> T \<le> t)
         \<and> (1 \<le> secs \<and> T = t0 + nat secs * 1000 \<longrightarrow>
              (relayOn (auto_off (of_nat t) (relayPulse secs (of_nat t0) s)) \<longleftrightarrow> t < T))"
proof -
  have a: "unat (of_nat t - of_nat T :: 32 word) < 2 ^ 31 \<longleftrightarrow> T \<le> t"
    using assms by (rule due_true_time)
  have b: "relayOn (auto_off (of_nat t) (relayPulse secs (of_nat t0) s)) \<longleftrightarrow> t < T"
    if "1 \<le> secs" "T = t0 + nat secs * 1000"
  proof -
    have "relayOffAtMs (relayPulse secs (of_nat t0) s) = of_nat T"
      using that by (simp add: relayPulse_deadline_of_nat)
    then show ?thesis using a by (auto simp: auto_off_fields relayPulse_fields)
  qed
  show ?thesis using a b by (simp add: auto_off_due_iff)
qed

theorem auto_off_wraparound_witness:
  "(4294969296::nat) \<le> 4294969295 + 2 ^ 31 \<and> (4294969295::nat) < 4294969296 + 2 ^ 31
   \<and> (4294969296::nat) = 4294966296 + nat 3 * 1000
   \<and> relayOffAtMs (relayPulse 3 (of_nat 4294966296) boot_state) = 2000
   \<and> \<not> auto_off_due (of_nat 4294969295) (of_nat 4294969296)
   \<and> relayOn (auto_off (of_nat 4294969295) (relayPulse 3 (of_nat 4294966296) boot_state))
   \<and> auto_off_due (of_nat 4294969296) (of_nat 4294969296)
   \<and> \<not> relayOn (auto_off (of_nat 4294969296) (relayPulse 3 (of_nat 4294966296) boot_state))"
  using auto_off_wraparound [where T = 4294969296 and t = 4294969295 and secs = 3
      and ?t0.0 = 4294966296 and s = boot_state]
    auto_off_wraparound [where T = 4294969296 and t = 4294969296 and secs = 3
      and ?t0.0 = 4294966296 and s = boot_state]
  by (simp add: relayPulse_fields)

text \<open>
  C10 as stated fails. A pulse of 2147484 seconds started at counter value 0 sets
  \<open>relayOffAtMs\<close> to 2147484000. One millisecond later the difference modulo
  \<open>2^32\<close> is below \<open>2^31\<close> and the auto-off test holds, so the relay is switched
  off, although the switch-off time has not been reached.
\<close>

theorem auto_off_long_pulse_counterexample:
  "unat ((1 :: 32 word) - relayOffAtMs (relayPulse 2147484 0 boot_state)) < 2 ^ 31
   \<and> auto_off_due 1 (relayOffAtMs (relayPulse 2147484 0 boot_state))
   \<and> \<not> relayOn (auto_off 1 (relayPulse 2147484 0 boot_state))
   \<and> (1 :: nat) < 0 + 2147484 * 1000"
  by (simp add: auto_off_fields auto_off_due_iff relayPulse_fields)

subsection \<open>Scheduler tick\<close>

lemma first_due_Some:
  "first_due h m es = Some i \<Longrightarrow>
     i < length es \<and> is_due h m (es ! i) \<and> (\<forall>k<i. \<not> is_due h m (es ! k))"
proof (induction es arbitrary: i)
  case Nil
  then show ?case by simp
next
  case (Cons e es)
  show ?case
  proof (cases "is_due h m e")
    case True
    with Cons.prems show ?thesis by (auto simp: is_due_def)
  next
    case False
    with Cons.prems obtain j where j: "first_due h m es = Some j" "i = Suc j"
      by (auto simp: is_due_def split: if_splits)
    from Cons.IH [OF j(1)] False j(2) show ?thesis
      by (auto simp: less_Suc_eq_0_disj)
  qed
qed

lemma first_due_None:
  "first_due h m es = None \<longleftrightarrow> (\<forall>e\<in>set es. \<not> is_due h m e)"
  by (induction es) (auto simp: is_due_def)

lemma first_due_exists:
  assumes "i < length es" "is_due h m (es ! i)"
  shows "\<exists>j\<le>i. first_due h m es = Some j"
proof -
  have "first_due h m es \<noteq> None"
    using assms by (auto simp: first_due_None)
  then obtain j where j: "first_due h m es = Some j" by blast
  have "j \<le> i"
  proof (rule ccontr)
    assume "\<not> j \<le> i"
    then have "i < j" by simp
    with first_due_Some [OF j] assms(2) show False by blast
  qed
  with j show ?thesis by blast
qed

lemma day_change_fields:
  "weekEvents (day_change y s) =
     (if lastYDay s \<noteq> y then map (map (\<lambda>e. e\<lparr>firedToday := False\<rparr>)) (weekEvents s)
      else weekEvents s)"
  "lastYDay (day_change y s) = y"
  "relayOn (day_change y s) = relayOn s"
  "relayOffAtMs (day_change y s) = relayOffAtMs s"
  "pin_writes (day_change y s) = pin_writes s"
  by (simp_all add: day_change_def)

lemma day_change_length: "length (weekEvents (day_change y s)) = length (weekEvents s)"
  by (simp add: day_change_fields)

lemma day_change_row:
  assumes "d < length (weekEvents s)" "i < length (weekEvents s ! d)"
  shows "length (weekEvents (day_change y s) ! d) = length (weekEvents s ! d)"
    and "enabled (weekEvents (day_change y s) ! d ! i) = enabled (weekEvents s ! d ! i)"
    and "hh (weekEvents (day_change y s) ! d ! i) = hh (weekEvents s ! d ! i)"
    and "mm (weekEvents (day_change y s) ! d ! i) = mm (weekEvents s ! d ! i)"
    and "duration (weekEvents (day_change y s) ! d ! i) = duration (weekEvents s ! d ! i)"
    and "firedToday (weekEvents (day_change y s) ! d ! i) =
           (lastYDay s = y \<and> firedToday (weekEvents s ! d ! i))"
  using assms by (simp_all add: day_change_fields)

lemma auto_off_keeps:
  "weekEvents (auto_off ms s) = weekEvents s"
  "lastYDay (auto_off ms s) = lastYDay s"
  by (simp_all add: auto_off_fields)

lemma fire_event_fields:
  "weekEvents (fire_event d i ms s) =
     (weekEvents s)[d := (weekEvents s ! d)[i := (weekEvents s ! d ! i)\<lparr>firedToday := True\<rparr>]]"
  "relayOn (fire_event d i ms s) = True"
  "relayOffAtMs (fire_event d i ms s) =
     ms + word_of_int (if duration (weekEvents s ! d ! i) < 1 then 1
                       else duration (weekEvents s ! d ! i)) * 1000"
  "pin_writes (fire_event d i ms s) = pin_writes s @ [LOW]"
  "lastYDay (fire_event d i ms s) = lastYDay s"
  by (simp_all add: fire_event_def Let_def relayPulse_fields)

lemma today_less: "0 \<le> tm_wday lt \<Longrightarrow> tm_wday lt \<le> 6 \<Longrightarrow> today lt < 7"
  by (auto simp: today_def getLocal_def Let_def)

lemma schedulerTick_unfold:
  "schedulerTick lt ms_off ms_pulse s =
     (let s2 = auto_off ms_off (day_change (tm_yday lt) s)
      in if tm_sec lt \<noteq> 0 then s2
         else (case first_due (tm_hour lt) (tm_min lt) (weekEvents s2 ! today lt) of
                 None \<Rightarrow> s2
               | Some i \<Rightarrow> fire_event (today lt) i ms_pulse s2))"
  unfolding schedulerTick_def getLocal_def today_def Let_def by (simp split: option.split)

lemma tick_fires_unfold:
  "tick_fires lt s =
     (if tm_sec lt \<noteq> 0 then None
      else map_option (\<lambda>i. (today lt, i))
             (first_due (tm_hour lt) (tm_min lt)
                (weekEvents (day_change (tm_yday lt) s) ! today lt)))"
  unfolding tick_fires_def getLocal_def today_def Let_def by simp

lemma schedulerTick_by_fires:
  "schedulerTick lt ms_off ms_pulse s =
     (case tick_fires lt s of
        None \<Rightarrow> auto_off ms_off (day_change (tm_yday lt) s)
      | Some (d, j) \<Rightarrow> fire_event d j ms_pulse (auto_off ms_off (day_change (tm_yday lt) s)))"
  by (simp add: schedulerTick_unfold tick_fires_unfold auto_off_keeps Let_def split: option.split)

lemma schedulerTick_lastYDay: "lastYDay (schedulerTick lt ms_off ms_pulse s) = tm_yday lt"
  by (simp add: schedulerTick_by_fires fire_event_fields auto_off_keeps day_change_fields
      split: option.split)

lemma schedulerTick_events:
  "weekEvents (schedulerTick lt ms_off ms_pulse s) =
     (let w = weekEvents (day_change (tm_yday lt) s)
      in case tick_fires lt s of
           None \<Rightarrow> w
         | Some (d, j) \<Rightarrow> w[d := (w ! d)[j := (w ! d ! j)\<lparr>firedToday := True\<rparr>]])"
  by (simp add: schedulerTick_by_fires fire_event_fields auto_off_keeps Let_def
      split: option.split)

lemma update_row_length:
  "d < length w \<Longrightarrow> length (w[a := (w ! a)[b := v]] ! d) = length (w ! d)"
  by (cases "a = d") simp_all

lemma update_row_fired:
  "firedToday (w ! d ! i) \<Longrightarrow> d < length w \<Longrightarrow> i < length (w ! d) \<Longrightarrow>
     firedToday (w[a := (w ! a)[b := (w ! a ! b)\<lparr>firedToday := True\<rparr>]] ! d ! i)"
  by (cases "a = d"; cases "b = i") simp_all

lemma day_change_row_length:
  "d < length (weekEvents s) \<Longrightarrow>
     length (weekEvents (day_change y s) ! d) = length (weekEvents s ! d)"
  by (simp add: day_change_fields)

lemma schedulerTick_lengths:
  "length (weekEvents (schedulerTick lt ms_off ms_pulse s)) = length (weekEvents s)"
  "d < length (weekEvents s) \<Longrightarrow>
     length (weekEvents (schedulerTick lt ms_off ms_pulse s) ! d) = length (weekEvents s ! d)"
  by (simp_all add: schedulerTick_events Let_def update_row_length day_change_length
      day_change_row_length split: option.split)

lemma tick_fires_due:
  assumes "tick_fires lt s = Some (d, j)"
  shows "d = today lt" "j < length (weekEvents (day_change (tm_yday lt) s) ! d)"
    "is_due (tm_hour lt) (tm_min lt) (weekEvents (day_change (tm_yday lt) s) ! d ! j)"
  using assms first_due_Some [of "tm_hour lt" "tm_min lt" "weekEvents (day_change (tm_yday lt) s) ! today lt" j]
  by (auto simp: tick_fires_unfold split: if_splits)

lemma same_day_step:
  assumes day: "tm_yday lt = lastYDay s"
    and d: "d < length (weekEvents s)" and i: "i < length (weekEvents s ! d)"
    and fired: "firedToday (weekEvents s ! d ! i)"
  shows "tick_fires lt s \<noteq> Some (d, i)"
    and "firedToday (weekEvents (schedulerTick lt ms_off ms_pulse s) ! d ! i)"
proof -
  have same: "day_change (tm_yday lt) s = s" using day by (simp add: day_change_def)
  show no: "tick_fires lt s \<noteq> Some (d, i)"
  proof
    assume "tick_fires lt s = Some (d, i)"
    from tick_fires_due(3) [OF this] fired show False by (simp add: same is_due_def)
  qed
  show "firedToday (weekEvents (schedulerTick lt ms_off ms_pulse s) ! d ! i)"
    using fired d i
    by (simp add: schedulerTick_events same Let_def update_row_fired split: option.split)
qed

lemma tick_eval:
  "schedulerTick lt ms_off ms_pulse s =
     (case getLocal lt of (h, m, ss, yday, wday) \<Rightarrow>
        if ss \<noteq> 0 then auto_off ms_off (day_change yday s)
        else (case first_due h m (weekEvents (auto_off ms_off (day_change yday s)) ! nat wday) of
                None \<Rightarrow> auto_off ms_off (day_change yday s)
              | Some i \<Rightarrow> fire_event (nat wday) i ms_pulse (auto_off ms_off (day_change yday s))))"
  by (simp add: schedulerTick_def Let_def)

lemma update_row_other:
  assumes "a \<noteq> d \<or> b \<noteq> i"
  shows "w[a := (w ! a)[b := v]] ! d ! i = w ! d ! i"
proof (cases "a = d")
  case True
  with assms have bi: "b \<noteq> i" by simp
  show ?thesis
  proof (cases "d < length w")
    case inside: True
    with True bi show ?thesis by simp
  next
    case False
    then have "w[d := (w ! d)[b := v]] = w" by (intro list_update_beyond) simp
    then show ?thesis using True by simp
  qed
next
  case False
  then show ?thesis by simp
qed

lemma day_change_unfired:
  assumes "lastYDay s \<noteq> y"
  shows "\<forall>row\<in>set (weekEvents (day_change y s)). \<forall>e\<in>set row. \<not> firedToday e"
  using assms by (auto simp: day_change_fields)

text \<open>
  C1, as the code has it. The table has its seven rows and the clock gives a weekday.
  Let the event at index \<open>i\<close> of today's row be enabled and not fired, with its hour and
  minute those of the clock, and let the second be 0. Then this tick fires exactly one
  event, at some index \<open>j \<le> i\<close>: the first entry of today's row (after the day-change
  reset) that is enabled, not fired and carries the current hour and minute. The pin
  gets exactly one on-write, the relay flag is set, \<open>relayOffAtMs\<close> is the counter plus
  1000 times that event's duration modulo \<open>2^32\<close>, the event at \<open>j\<close> is marked fired and
  no other entry of the table changes. If the event at \<open>i\<close> is itself the first such
  entry it is the one that fires, with its own duration. If an earlier entry shares its
  time, that one fires, the event at \<open>i\<close> stays unfired in this tick, and the next tick
  with the same clock fires a later entry up to \<open>i\<close>, with one more on-write to the
  pin. When the duration is at most
  2147483 seconds and the pulse starts at time \<open>t0\<close> (milliseconds since boot, not
  wrapped), the auto-off block leaves the relay on at every time from \<open>t0\<close> up to the
  duration, and switches it off from then on (for \<open>2^31\<close> ms).
\<close>

theorem scheduler_fires_first_match:
  fixes lt :: tm and s :: state and ms_off ms_pulse :: "32 word"
  defines "s1 \<equiv> auto_off ms_off (day_change (tm_yday lt) s)"
    and "s' \<equiv> schedulerTick lt ms_off ms_pulse s"
  assumes table: "length (weekEvents s) = 7"
    and wday: "0 \<le> tm_wday lt" "tm_wday lt \<le> 6"
    and sec: "tm_sec lt = 0"
    and i: "i < length (weekEvents s ! today lt)"
    and e: "e = weekEvents s ! today lt ! i"
    and armed: "enabled e" "\<not> firedToday e"
    and match: "hh e = tm_hour lt" "mm e = tm_min lt"
    and valid: "0 \<le> hh e" "hh e \<le> 23" "0 \<le> mm e" "mm e \<le> 59" "1 \<le> duration e"
  shows "\<exists>j\<le>i.
           tick_fires lt s = Some (today lt, j)
         \<and> is_due (tm_hour lt) (tm_min lt) (weekEvents s1 ! today lt ! j)
         \<and> (\<forall>k<j. \<not> is_due (tm_hour lt) (tm_min lt) (weekEvents s1 ! today lt ! k))
         \<and> weekEvents s' =
             (weekEvents s1)[today lt :=
               (weekEvents s1 ! today lt)[j := (weekEvents s1 ! today lt ! j)\<lparr>firedToday := True\<rparr>]]
         \<and> relayOn s'
         \<and> pin_writes s' = pin_writes s1 @ [LOW]
         \<and> relayOffAtMs s' =
             ms_pulse + word_of_int (if duration (weekEvents s1 ! today lt ! j) < 1 then 1
                                     else duration (weekEvents s1 ! today lt ! j)) * 1000
         \<and> (j = i \<longrightarrow> firedToday (weekEvents s' ! today lt ! i)
                      \<and> relayOffAtMs s' = ms_pulse + word_of_int (duration e) * 1000)
         \<and> (j < i \<longrightarrow> \<not> firedToday (weekEvents s' ! today lt ! i))
         \<and> (j < i \<longrightarrow>
              (\<exists>j'. j < j' \<and> j' \<le> i \<and> tick_fires lt s' = Some (today lt, j')
                 \<and> (\<forall>m_off m_pulse.
                       schedulerTick lt m_off m_pulse s' = fire_event (today lt) j' m_pulse (auto_off m_off s')
                     \<and> pin_writes (schedulerTick lt m_off m_pulse s') = pin_writes (auto_off m_off s') @ [LOW]
                     \<and> firedToday (weekEvents (schedulerTick lt m_off m_pulse s') ! today lt ! j'))))
         \<and> (duration (weekEvents s1 ! today lt ! j) \<le> 2147483 \<longrightarrow>
              (\<forall>t0 t. ms_pulse = of_nat t0 \<longrightarrow>
                 (t0 \<le> t \<and> t < t0 + 1000 * nat (max 1 (duration (weekEvents s1 ! today lt ! j)))
                    \<longrightarrow> auto_off (of_nat t) s' = s')
               \<and> (t0 + 1000 * nat (max 1 (duration (weekEvents s1 ! today lt ! j))) \<le> t
                  \<and> t < t0 + 1000 * nat (max 1 (duration (weekEvents s1 ! today lt ! j))) + 2 ^ 31
                    \<longrightarrow> auto_off (of_nat t) s' =
                          s'\<lparr>relayOn := False, pin_writes := pin_writes s' @ [HIGH]\<rparr>)))"
proof -
  let ?d = "today lt" and ?h = "tm_hour lt" and ?m = "tm_min lt"
  have d: "?d < length (weekEvents s)" using today_less [OF wday] table by simp
  have ev1: "weekEvents s1 = weekEvents (day_change (tm_yday lt) s)"
    by (simp add: s1_def auto_off_keeps)
  have len: "length (weekEvents s1 ! ?d) = length (weekEvents s ! ?d)"
    unfolding ev1 using d i by (rule day_change_row)
  have d1: "?d < length (weekEvents s1)" using d by (simp add: ev1 day_change_length)
  have due_i: "is_due ?h ?m (weekEvents s1 ! ?d ! i)"
    unfolding ev1 is_due_def using armed match e by (simp add: day_change_row [OF d i])
  from first_due_exists [of i "weekEvents s1 ! ?d" ?h ?m] i len due_i
  obtain j where j: "j \<le> i" "first_due ?h ?m (weekEvents s1 ! ?d) = Some j" by auto
  note fj = first_due_Some [OF j(2)]
  have fires: "tick_fires lt s = Some (?d, j)"
    using sec j(2) by (simp add: tick_fires_unfold ev1)
  have s'_eq: "s' = fire_event ?d j ms_pulse s1"
    using sec j(2) by (simp add: s'_def schedulerTick_unfold s1_def Let_def)
  have ji: "j < length (weekEvents s1 ! ?d)" using fj by simp
  have fired_i: "firedToday (weekEvents s' ! ?d ! i) \<longleftrightarrow> j = i"
  proof -
    have "\<not> firedToday (weekEvents s1 ! ?d ! i)" using due_i by (simp add: is_due_def)
    then show ?thesis using d1 i len ji
      by (auto simp: s'_eq fire_event_fields nth_list_update)
  qed
  have dur: "j = i \<Longrightarrow> duration (weekEvents s1 ! ?d ! j) = duration e"
    unfolding ev1 using e by (simp add: day_change_row [OF d i])
  have c4: "weekEvents s' =
             (weekEvents s1)[?d := (weekEvents s1 ! ?d)[j := (weekEvents s1 ! ?d ! j)\<lparr>firedToday := True\<rparr>]]"
    by (simp add: s'_eq fire_event_fields)
  have c5: "relayOn s'" and c6: "pin_writes s' = pin_writes s1 @ [LOW]"
    by (simp_all add: s'_eq fire_event_fields)
  have c7: "relayOffAtMs s' =
             ms_pulse + word_of_int (if duration (weekEvents s1 ! ?d ! j) < 1 then 1
                                     else duration (weekEvents s1 ! ?d ! j)) * 1000"
    by (simp add: s'_eq fire_event_fields)
  have c8: "j = i \<longrightarrow> firedToday (weekEvents s' ! ?d ! i)
                      \<and> relayOffAtMs s' = ms_pulse + word_of_int (duration e) * 1000"
    using fired_i dur valid(5) c7 by auto
  have c9: "j < i \<longrightarrow> \<not> firedToday (weekEvents s' ! ?d ! i)"
    using fired_i by auto
  from fj have c2: "is_due ?h ?m (weekEvents s1 ! ?d ! j)"
    and c3: "\<forall>k<j. \<not> is_due ?h ?m (weekEvents s1 ! ?d ! k)" by simp_all
  have c10: "j < i \<longrightarrow>
              (\<exists>j'. j < j' \<and> j' \<le> i \<and> tick_fires lt s' = Some (today lt, j')
                 \<and> (\<forall>m_off m_pulse.
                       schedulerTick lt m_off m_pulse s' = fire_event (today lt) j' m_pulse (auto_off m_off s')
                     \<and> pin_writes (schedulerTick lt m_off m_pulse s') = pin_writes (auto_off m_off s') @ [LOW]
                     \<and> firedToday (weekEvents (schedulerTick lt m_off m_pulse s') ! today lt ! j')))"
  proof
    assume lt_i: "j < i"
    let ?row = "weekEvents s1 ! ?d"
    let ?row' = "?row[j := (?row ! j)\<lparr>firedToday := True\<rparr>]"
    have ly: "lastYDay s' = tm_yday lt" by (simp add: s'_def schedulerTick_lastYDay)
    then have same: "day_change (tm_yday lt) s' = s'" by (simp add: day_change_def)
    have row': "weekEvents s' ! ?d = ?row'" using d1 by (simp add: c4)
    have due_i': "is_due ?h ?m (?row' ! i)" using lt_i due_i by simp
    from first_due_exists [of i ?row' ?h ?m] i len due_i'
    obtain j' where j': "j' \<le> i" "first_due ?h ?m ?row' = Some j'" by auto
    note fj' = first_due_Some [OF j'(2)]
    have "j' \<noteq> j"
    proof
      assume "j' = j"
      with fj' ji show False by (simp add: is_due_def)
    qed
    moreover have "\<not> j' < j"
    proof
      assume "j' < j"
      with fj' have "is_due ?h ?m (?row ! j')" by simp
      with c3 \<open>j' < j\<close> show False by blast
    qed
    ultimately have lt_j': "j < j'" by simp
    have tf: "tick_fires lt s' = Some (?d, j')"
      using sec j'(2) by (simp add: tick_fires_unfold same row')
    have d': "?d < length (weekEvents s')" using d1 by (simp add: c4)
    have nxt: "schedulerTick lt m_off m_pulse s' = fire_event ?d j' m_pulse (auto_off m_off s')
             \<and> pin_writes (schedulerTick lt m_off m_pulse s') = pin_writes (auto_off m_off s') @ [LOW]
             \<and> firedToday (weekEvents (schedulerTick lt m_off m_pulse s') ! ?d ! j')"
      for m_off m_pulse
    proof -
      have st: "schedulerTick lt m_off m_pulse s' = fire_event ?d j' m_pulse (auto_off m_off s')"
        by (simp add: schedulerTick_by_fires tf same)
      have "j' < length (weekEvents s' ! ?d)" using fj' by (simp add: row')
      then have "firedToday (weekEvents (fire_event ?d j' m_pulse (auto_off m_off s')) ! ?d ! j')"
        using d' by (simp add: fire_event_fields auto_off_keeps)
      then show ?thesis unfolding st by (simp add: fire_event_fields)
    qed
    from lt_j' j'(1) tf nxt
    show "\<exists>j'. j < j' \<and> j' \<le> i \<and> tick_fires lt s' = Some (today lt, j')
                 \<and> (\<forall>m_off m_pulse.
                       schedulerTick lt m_off m_pulse s' = fire_event (today lt) j' m_pulse (auto_off m_off s')
                     \<and> pin_writes (schedulerTick lt m_off m_pulse s') = pin_writes (auto_off m_off s') @ [LOW]
                     \<and> firedToday (weekEvents (schedulerTick lt m_off m_pulse s') ! today lt ! j'))"
      by blast
  qed
  have c11: "duration (weekEvents s1 ! ?d ! j) \<le> 2147483 \<longrightarrow>
              (\<forall>t0 t. ms_pulse = of_nat t0 \<longrightarrow>
                 (t0 \<le> t \<and> t < t0 + 1000 * nat (max 1 (duration (weekEvents s1 ! ?d ! j)))
                    \<longrightarrow> auto_off (of_nat t) s' = s')
               \<and> (t0 + 1000 * nat (max 1 (duration (weekEvents s1 ! ?d ! j))) \<le> t
                  \<and> t < t0 + 1000 * nat (max 1 (duration (weekEvents s1 ! ?d ! j))) + 2 ^ 31
                    \<longrightarrow> auto_off (of_nat t) s' =
                          s'\<lparr>relayOn := False, pin_writes := pin_writes s' @ [HIGH]\<rparr>))"
  proof (intro impI allI)
    fix t0 t :: nat
    define dj where "dj = max 1 (duration (weekEvents s1 ! ?d ! j))"
    assume small: "duration (weekEvents s1 ! ?d ! j) \<le> 2147483" and ms: "ms_pulse = of_nat t0"
    have dj: "1 \<le> dj" "dj \<le> 2147483" using small by (simp_all add: dj_def)
    define T where "T = t0 + 1000 * nat dj"
    have off: "relayOffAtMs s' = of_nat T"
      using dj by (simp add: c7 ms T_def dj_def max_def)
    have span: "1000 * nat dj < 2 ^ 31" using dj by simp
    have a: "auto_off (of_nat t) s' = s'" if "t0 \<le> t \<and> t < T"
    proof -
      from that span have "T \<le> t + 2 ^ 31" "t < T + 2 ^ 31" by (simp_all add: T_def)
      from due_true_time [OF this] that
      have "\<not> unat (of_nat t - of_nat T :: 32 word) < 2 ^ 31" by simp
      then show ?thesis by (simp add: auto_off_fields off)
    qed
    have b: "auto_off (of_nat t) s' = s'\<lparr>relayOn := False, pin_writes := pin_writes s' @ [HIGH]\<rparr>"
      if "T \<le> t \<and> t < T + 2 ^ 31"
    proof -
      from that have "T \<le> t + 2 ^ 31" "t < T + 2 ^ 31" by simp_all
      from due_true_time [OF this] that
      have "unat (of_nat t - of_nat T :: 32 word) < 2 ^ 31" by simp
      then show ?thesis using c5 by (simp add: auto_off_fields off)
    qed
    from a b show "(t0 \<le> t \<and> t < t0 + 1000 * nat (max 1 (duration (weekEvents s1 ! ?d ! j)))
                    \<longrightarrow> auto_off (of_nat t) s' = s')
               \<and> (t0 + 1000 * nat (max 1 (duration (weekEvents s1 ! ?d ! j))) \<le> t
                  \<and> t < t0 + 1000 * nat (max 1 (duration (weekEvents s1 ! ?d ! j))) + 2 ^ 31
                    \<longrightarrow> auto_off (of_nat t) s' =
                          s'\<lparr>relayOn := False, pin_writes := pin_writes s' @ [HIGH]\<rparr>)"
      unfolding T_def dj_def by blast
  qed
  show ?thesis
    by (intro exI [of _ j] conjI j(1) fires c2 c3 c4 c5 c6 c7 c8 c9 c10 c11)
qed

theorem scheduler_fires_first_match_witness:
  "tick_fires wed_0800 two_bells = Some (2, 0)
   \<and> weekEvents (schedulerTick wed_0800 0 1000 two_bells)
       = [[], [], [bell 8 0 5 True, bell 8 0 7 False], [], [], [], []]
   \<and> relayOn (schedulerTick wed_0800 0 1000 two_bells)
   \<and> pin_writes (schedulerTick wed_0800 0 1000 two_bells) = [LOW]
   \<and> relayOffAtMs (schedulerTick wed_0800 0 1000 two_bells) = 6000
   \<and> tick_fires wed_0800 (schedulerTick wed_0800 0 1000 two_bells) = Some (2, 1)
   \<and> pin_writes (schedulerTick wed_0800 10 1010 (schedulerTick wed_0800 0 1000 two_bells)) = [LOW, LOW]
   \<and> auto_off 5999 (schedulerTick wed_0800 0 1000 two_bells) = schedulerTick wed_0800 0 1000 two_bells
   \<and> \<not> relayOn (auto_off 6000 (schedulerTick wed_0800 0 1000 two_bells))"
proof -
  let ?s' = "schedulerTick wed_0800 0 1000 two_bells"
  have h: "length (weekEvents two_bells) = 7" "0 \<le> tm_wday wed_0800" "tm_wday wed_0800 \<le> 6"
    "tm_sec wed_0800 = 0" "1 < length (weekEvents two_bells ! today wed_0800)"
    "bell 8 0 7 False = weekEvents two_bells ! today wed_0800 ! 1"
    "enabled (bell 8 0 7 False)" "\<not> firedToday (bell 8 0 7 False)"
    "hh (bell 8 0 7 False) = tm_hour wed_0800" "mm (bell 8 0 7 False) = tm_min wed_0800"
    "0 \<le> hh (bell 8 0 7 False)" "hh (bell 8 0 7 False) \<le> 23"
    "0 \<le> mm (bell 8 0 7 False)" "mm (bell 8 0 7 False) \<le> 59"
    "1 \<le> duration (bell 8 0 7 False)"
    by (simp_all add: two_bells_def boot_state_def bell_def wed_0800_def today_def getLocal_def)
  have s1: "auto_off 0 (day_change (tm_yday wed_0800) two_bells) = two_bells"
    by (simp add: auto_off_fields day_change_def two_bells_def boot_state_def wed_0800_def)
  have d2: "today wed_0800 = 2" by (simp add: today_def getLocal_def wed_0800_def)
  have fires: "tick_fires wed_0800 two_bells = Some (2, 0)"
    by (simp add: tick_fires_def getLocal_def wed_0800_def two_bells_def boot_state_def
        bell_def day_change_def)
  from scheduler_fires_first_match [where ms_off = 0 and ms_pulse = 1000, OF h]
  obtain j where j: "tick_fires wed_0800 two_bells = Some (today wed_0800, j)"
    and ev: "weekEvents ?s' =
             (weekEvents (auto_off 0 (day_change (tm_yday wed_0800) two_bells)))[today wed_0800 :=
               (weekEvents (auto_off 0 (day_change (tm_yday wed_0800) two_bells)) ! today wed_0800)[j :=
                 (weekEvents (auto_off 0 (day_change (tm_yday wed_0800) two_bells)) ! today wed_0800 ! j)\<lparr>firedToday := True\<rparr>]]"
    and on: "relayOn ?s'"
    and pins: "pin_writes ?s' = pin_writes (auto_off 0 (day_change (tm_yday wed_0800) two_bells)) @ [LOW]"
    and dl: "relayOffAtMs ?s' =
             1000 + word_of_int (if duration (weekEvents (auto_off 0 (day_change (tm_yday wed_0800) two_bells)) ! today wed_0800 ! j) < 1 then 1
                                 else duration (weekEvents (auto_off 0 (day_change (tm_yday wed_0800) two_bells)) ! today wed_0800 ! j)) * 1000"
    and nxt: "j < 1 \<longrightarrow>
              (\<exists>j'. j < j' \<and> j' \<le> 1 \<and> tick_fires wed_0800 ?s' = Some (today wed_0800, j')
                 \<and> (\<forall>m_off m_pulse.
                       schedulerTick wed_0800 m_off m_pulse ?s'
                         = fire_event (today wed_0800) j' m_pulse (auto_off m_off ?s')
                     \<and> pin_writes (schedulerTick wed_0800 m_off m_pulse ?s')
                         = pin_writes (auto_off m_off ?s') @ [LOW]
                     \<and> firedToday (weekEvents (schedulerTick wed_0800 m_off m_pulse ?s') ! today wed_0800 ! j')))"
    and len: "duration (weekEvents (auto_off 0 (day_change (tm_yday wed_0800) two_bells)) ! today wed_0800 ! j) \<le> 2147483 \<longrightarrow>
              (\<forall>t0 t. (1000 :: 32 word) = of_nat t0 \<longrightarrow>
                 (t0 \<le> t \<and> t < t0 + 1000 * nat (max 1 (duration (weekEvents (auto_off 0 (day_change (tm_yday wed_0800) two_bells)) ! today wed_0800 ! j)))
                    \<longrightarrow> auto_off (of_nat t) ?s' = ?s')
               \<and> (t0 + 1000 * nat (max 1 (duration (weekEvents (auto_off 0 (day_change (tm_yday wed_0800) two_bells)) ! today wed_0800 ! j))) \<le> t
                  \<and> t < t0 + 1000 * nat (max 1 (duration (weekEvents (auto_off 0 (day_change (tm_yday wed_0800) two_bells)) ! today wed_0800 ! j))) + 2 ^ 31
                    \<longrightarrow> auto_off (of_nat t) ?s' =
                          ?s'\<lparr>relayOn := False, pin_writes := pin_writes ?s' @ [HIGH]\<rparr>))"
    by blast
  from j fires have j0: "j = 0" by simp
  have row: "weekEvents two_bells = [[], [], [bell 8 0 5 False, bell 8 0 7 False], [], [], [], []]"
    by (simp add: two_bells_def boot_state_def)
  have ev': "weekEvents ?s' = [[], [], [bell 8 0 5 True, bell 8 0 7 False], [], [], [], []]"
    using ev unfolding s1 d2 j0 row by (simp add: bell_def)
  have pins': "pin_writes ?s' = [LOW]"
    using pins unfolding s1 by (simp add: two_bells_def boot_state_def)
  have dl': "relayOffAtMs ?s' = 6000"
    using dl unfolding s1 d2 j0 row by (simp add: bell_def)
  from nxt j0 obtain j' where j': "0 < j'" "j' \<le> 1"
      "tick_fires wed_0800 ?s' = Some (2, j')"
      "pin_writes (schedulerTick wed_0800 10 1010 ?s') = pin_writes (auto_off 10 ?s') @ [LOW]"
    unfolding d2 by blast
  from j'(1) j'(2) have "j' = 1" by simp
  with j'(3) have nxt': "tick_fires wed_0800 ?s' = Some (2, 1)" by simp
  have "auto_off 10 ?s' = ?s'" by (simp add: auto_off_fields dl')
  with j'(4) pins' have pins2: "pin_writes (schedulerTick wed_0800 10 1010 ?s') = [LOW, LOW]"
    by simp
  have small: "duration (weekEvents two_bells ! 2 ! 0) \<le> 2147483" "max 1 (duration (weekEvents two_bells ! 2 ! 0)) = 5"
    unfolding row by (simp_all add: bell_def)
  from len have len': "\<forall>t0 t. (1000 :: 32 word) = of_nat t0 \<longrightarrow>
                 (t0 \<le> t \<and> t < t0 + 1000 * nat 5 \<longrightarrow> auto_off (of_nat t) ?s' = ?s')
               \<and> (t0 + 1000 * nat 5 \<le> t \<and> t < t0 + 1000 * nat 5 + 2 ^ 31
                    \<longrightarrow> auto_off (of_nat t) ?s' =
                          ?s'\<lparr>relayOn := False, pin_writes := pin_writes ?s' @ [HIGH]\<rparr>)"
    unfolding s1 d2 j0 using small by simp
  have "(1000 :: 32 word) = of_nat 1000" by simp
  with len' have w: "(1000 \<le> t \<and> t < 1000 + 1000 * nat 5 \<longrightarrow> auto_off (of_nat t) ?s' = ?s')
               \<and> (1000 + 1000 * nat 5 \<le> t \<and> t < 1000 + 1000 * nat 5 + 2 ^ 31
                    \<longrightarrow> auto_off (of_nat t) ?s' =
                          ?s'\<lparr>relayOn := False, pin_writes := pin_writes ?s' @ [HIGH]\<rparr>)" for t
    by blast
  from w [of 5999] have stay: "auto_off 5999 ?s' = ?s'" by simp
  from w [of 6000] have "auto_off 6000 ?s' = ?s'\<lparr>relayOn := False, pin_writes := pin_writes ?s' @ [HIGH]\<rparr>"
    by simp
  then have off: "\<not> relayOn (auto_off 6000 ?s')" by simp
  show ?thesis using fires ev' on pins' dl' nxt' pins2 stay off by blast
qed

text \<open>
  C1 as stated fails. Wednesday holds two events at 08:00. The tick at 08:00:00 fires
  the first; the next tick, still in second 0, fires the second, so both fire in that
  minute: two on-writes, and the second pulse overwrites the switch-off time.
\<close>

theorem same_second_duplicate_counterexample:
  "ticks_fired [(wed_0800, 0, 1000), (wed_0800, 10, 1010)] two_bells = [Some (2, 0), Some (2, 1)]
   \<and> weekEvents (run_ticks [(wed_0800, 0, 1000), (wed_0800, 10, 1010)] two_bells) ! 2
       = [bell 8 0 5 True, bell 8 0 7 True]
   \<and> pin_writes (run_ticks [(wed_0800, 0, 1000), (wed_0800, 10, 1010)] two_bells) = [LOW, LOW]
   \<and> relayOffAtMs (run_ticks [(wed_0800, 0, 1000), (wed_0800, 10, 1010)] two_bells) = 8010"
  by (simp add: tick_fires_def tick_eval getLocal_def wed_0800_def two_bells_def boot_state_def
      bell_def day_change_def auto_off_fields fire_event_def relayPulse_def relayWrite_def
      RELAY_ACTIVE_LOW_def Let_def)

lemma run_ticks_append: "run_ticks (pre @ post) s = run_ticks post (run_ticks pre s)"
  by (induction pre arbitrary: s) auto

lemma same_day_run:
  assumes "\<forall>x\<in>set ticks. tm_yday (fst x) = lastYDay s"
    and "d < length (weekEvents s)" and "i < length (weekEvents s ! d)"
    and "firedToday (weekEvents s ! d ! i)"
  shows "Some (d, i) \<notin> set (ticks_fired ticks s)
         \<and> firedToday (weekEvents (run_ticks ticks s) ! d ! i)
         \<and> lastYDay (run_ticks ticks s) = lastYDay s
         \<and> d < length (weekEvents (run_ticks ticks s))
         \<and> i < length (weekEvents (run_ticks ticks s) ! d)"
  using assms
proof (induction ticks arbitrary: s)
  case Nil
  then show ?case by simp
next
  case (Cons x rest)
  obtain lt ms_off ms_pulse where x: "x = (lt, ms_off, ms_pulse)" by (cases x)
  let ?s = "schedulerTick lt ms_off ms_pulse s"
  have day: "tm_yday lt = lastYDay s" using Cons.prems(1) x by simp
  note step = same_day_step [OF day Cons.prems(2,3,4)]
  have ly: "lastYDay ?s = lastYDay s" using day by (simp add: schedulerTick_lastYDay)
  have "\<forall>x\<in>set rest. tm_yday (fst x) = lastYDay ?s"
    using Cons.prems(1) ly by simp
  moreover have "d < length (weekEvents ?s)" "i < length (weekEvents ?s ! d)"
    using Cons.prems(2,3) by (simp_all add: schedulerTick_lengths)
  ultimately have "Some (d, i) \<notin> set (ticks_fired rest ?s)
         \<and> firedToday (weekEvents (run_ticks rest ?s) ! d ! i)
         \<and> lastYDay (run_ticks rest ?s) = lastYDay ?s
         \<and> d < length (weekEvents (run_ticks rest ?s))
         \<and> i < length (weekEvents (run_ticks rest ?s) ! d)"
    using step(2) [of ms_off ms_pulse] by (intro Cons.IH)
  then show ?case using step(1) ly by (auto simp: x)
qed

lemma same_day_tick_relay:
  assumes day: "tm_yday lt = lastYDay s"
    and d: "d < length (weekEvents s)" and i: "i < length (weekEvents s ! d)"
    and fired: "firedToday (weekEvents s ! d ! i)"
  shows "tick_fires lt s \<noteq> Some (d, i)"
    and "tick_fires lt s = None \<longrightarrow>
           schedulerTick lt ms_off ms_pulse s = auto_off ms_off s
         \<and> relayOffAtMs (schedulerTick lt ms_off ms_pulse s) = relayOffAtMs s
         \<and> (relayOn (schedulerTick lt ms_off ms_pulse s) \<longrightarrow> relayOn s)
         \<and> (pin_writes (schedulerTick lt ms_off ms_pulse s) = pin_writes s
            \<or> pin_writes (schedulerTick lt ms_off ms_pulse s) = pin_writes s @ [HIGH])"
    and "\<forall>d' j. tick_fires lt s = Some (d', j) \<longrightarrow>
           (d', j) \<noteq> (d, i)
         \<and> is_due (tm_hour lt) (tm_min lt) (weekEvents s ! d' ! j)
         \<and> schedulerTick lt ms_off ms_pulse s = fire_event d' j ms_pulse (auto_off ms_off s)
         \<and> pin_writes (schedulerTick lt ms_off ms_pulse s) = pin_writes (auto_off ms_off s) @ [LOW]
         \<and> relayOffAtMs (schedulerTick lt ms_off ms_pulse s) =
             ms_pulse + word_of_int (if duration (weekEvents s ! d' ! j) < 1 then 1
                                     else duration (weekEvents s ! d' ! j)) * 1000"
    and "(\<forall>e\<in>set (weekEvents s ! today lt).
            enabled e \<and> hh e = tm_hour lt \<and> mm e = tm_min lt \<longrightarrow> firedToday e)
         \<longrightarrow> tick_fires lt s = None"
proof -
  have same: "day_change (tm_yday lt) s = s" using day by (simp add: day_change_def)
  show no: "tick_fires lt s \<noteq> Some (d, i)"
    using same_day_step(1) [OF day d i fired] .
  show "tick_fires lt s = None \<longrightarrow>
           schedulerTick lt ms_off ms_pulse s = auto_off ms_off s
         \<and> relayOffAtMs (schedulerTick lt ms_off ms_pulse s) = relayOffAtMs s
         \<and> (relayOn (schedulerTick lt ms_off ms_pulse s) \<longrightarrow> relayOn s)
         \<and> (pin_writes (schedulerTick lt ms_off ms_pulse s) = pin_writes s
            \<or> pin_writes (schedulerTick lt ms_off ms_pulse s) = pin_writes s @ [HIGH])"
    by (simp add: schedulerTick_by_fires same auto_off_fields)
  show "\<forall>d' j. tick_fires lt s = Some (d', j) \<longrightarrow>
           (d', j) \<noteq> (d, i)
         \<and> is_due (tm_hour lt) (tm_min lt) (weekEvents s ! d' ! j)
         \<and> schedulerTick lt ms_off ms_pulse s = fire_event d' j ms_pulse (auto_off ms_off s)
         \<and> pin_writes (schedulerTick lt ms_off ms_pulse s) = pin_writes (auto_off ms_off s) @ [LOW]
         \<and> relayOffAtMs (schedulerTick lt ms_off ms_pulse s) =
             ms_pulse + word_of_int (if duration (weekEvents s ! d' ! j) < 1 then 1
                                     else duration (weekEvents s ! d' ! j)) * 1000"
  proof (intro allI impI)
    fix d' j assume f: "tick_fires lt s = Some (d', j)"
    from f no have ne: "(d', j) \<noteq> (d, i)" by auto
    from tick_fires_due(3) [OF f] have due: "is_due (tm_hour lt) (tm_min lt) (weekEvents s ! d' ! j)"
      by (simp add: same)
    have eq: "schedulerTick lt ms_off ms_pulse s = fire_event d' j ms_pulse (auto_off ms_off s)"
      by (simp add: schedulerTick_by_fires f same)
    show "(d', j) \<noteq> (d, i)
         \<and> is_due (tm_hour lt) (tm_min lt) (weekEvents s ! d' ! j)
         \<and> schedulerTick lt ms_off ms_pulse s = fire_event d' j ms_pulse (auto_off ms_off s)
         \<and> pin_writes (schedulerTick lt ms_off ms_pulse s) = pin_writes (auto_off ms_off s) @ [LOW]
         \<and> relayOffAtMs (schedulerTick lt ms_off ms_pulse s) =
             ms_pulse + word_of_int (if duration (weekEvents s ! d' ! j) < 1 then 1
                                     else duration (weekEvents s ! d' ! j)) * 1000"
      using ne due eq by (simp add: fire_event_fields auto_off_keeps)
  qed
  show "(\<forall>e\<in>set (weekEvents s ! today lt).
            enabled e \<and> hh e = tm_hour lt \<and> mm e = tm_min lt \<longrightarrow> firedToday e)
         \<longrightarrow> tick_fires lt s = None"
    by (auto simp: tick_fires_unfold same first_due_None is_due_def)
qed

text \<open>
  C6. An entry of the table that is marked fired, and any run of ticks whose day of
  the year is the recorded one, whatever hour, minute and second the ticks see. The
  entry is never the one a tick of the run fires, and it is marked fired before every
  tick and after the run. What a tick of the run does to the relay is then: if it
  fires no event, it is the auto-off block alone, so it writes no on level to the
  pin, does not set the relay flag and leaves \<open>relayOffAtMs\<close> alone; if it fires an
  event, that is another entry, enabled, not fired and at the clock's hour and minute,
  and the on-write and the new \<open>relayOffAtMs\<close> are that entry's pulse. A tick fires
  no event when every enabled entry of today's row at the clock's hour and minute is
  marked fired.
\<close>

theorem fired_event_stays_silent:
  assumes "\<forall>x\<in>set ticks. tm_yday (fst x) = lastYDay s"
    and "d < length (weekEvents s)" and "i < length (weekEvents s ! d)"
    and "firedToday (weekEvents s ! d ! i)"
  shows "Some (d, i) \<notin> set (ticks_fired ticks s)
     \<and> firedToday (weekEvents (run_ticks ticks s) ! d ! i)
     \<and> (\<forall>pre lt ms_off ms_pulse post. ticks = pre @ (lt, ms_off, ms_pulse) # post \<longrightarrow>
          firedToday (weekEvents (run_ticks pre s) ! d ! i)
        \<and> tick_fires lt (run_ticks pre s) \<noteq> Some (d, i)
        \<and> (tick_fires lt (run_ticks pre s) = None \<longrightarrow>
              schedulerTick lt ms_off ms_pulse (run_ticks pre s) = auto_off ms_off (run_ticks pre s)
            \<and> relayOffAtMs (schedulerTick lt ms_off ms_pulse (run_ticks pre s))
                = relayOffAtMs (run_ticks pre s)
            \<and> (relayOn (schedulerTick lt ms_off ms_pulse (run_ticks pre s))
                \<longrightarrow> relayOn (run_ticks pre s))
            \<and> (pin_writes (schedulerTick lt ms_off ms_pulse (run_ticks pre s))
                  = pin_writes (run_ticks pre s)
               \<or> pin_writes (schedulerTick lt ms_off ms_pulse (run_ticks pre s))
                  = pin_writes (run_ticks pre s) @ [HIGH]))
        \<and> (\<forall>d' j. tick_fires lt (run_ticks pre s) = Some (d', j) \<longrightarrow>
              (d', j) \<noteq> (d, i)
            \<and> is_due (tm_hour lt) (tm_min lt) (weekEvents (run_ticks pre s) ! d' ! j)
            \<and> schedulerTick lt ms_off ms_pulse (run_ticks pre s)
                = fire_event d' j ms_pulse (auto_off ms_off (run_ticks pre s))
            \<and> pin_writes (schedulerTick lt ms_off ms_pulse (run_ticks pre s))
                = pin_writes (auto_off ms_off (run_ticks pre s)) @ [LOW]
            \<and> relayOffAtMs (schedulerTick lt ms_off ms_pulse (run_ticks pre s)) =
                ms_pulse + word_of_int
                  (if duration (weekEvents (run_ticks pre s) ! d' ! j) < 1 then 1
                   else duration (weekEvents (run_ticks pre s) ! d' ! j)) * 1000)
        \<and> ((\<forall>e\<in>set (weekEvents (run_ticks pre s) ! today lt).
                enabled e \<and> hh e = tm_hour lt \<and> mm e = tm_min lt \<longrightarrow> firedToday e)
            \<longrightarrow> tick_fires lt (run_ticks pre s) = None))"
proof -
  from same_day_run [OF assms]
  have whole: "Some (d, i) \<notin> set (ticks_fired ticks s)"
    "firedToday (weekEvents (run_ticks ticks s) ! d ! i)" by simp_all
  have each: "firedToday (weekEvents (run_ticks pre s) ! d ! i)
        \<and> tick_fires lt (run_ticks pre s) \<noteq> Some (d, i)
        \<and> (tick_fires lt (run_ticks pre s) = None \<longrightarrow>
              schedulerTick lt ms_off ms_pulse (run_ticks pre s) = auto_off ms_off (run_ticks pre s)
            \<and> relayOffAtMs (schedulerTick lt ms_off ms_pulse (run_ticks pre s))
                = relayOffAtMs (run_ticks pre s)
            \<and> (relayOn (schedulerTick lt ms_off ms_pulse (run_ticks pre s))
                \<longrightarrow> relayOn (run_ticks pre s))
            \<and> (pin_writes (schedulerTick lt ms_off ms_pulse (run_ticks pre s))
                  = pin_writes (run_ticks pre s)
               \<or> pin_writes (schedulerTick lt ms_off ms_pulse (run_ticks pre s))
                  = pin_writes (run_ticks pre s) @ [HIGH]))
        \<and> (\<forall>d' j. tick_fires lt (run_ticks pre s) = Some (d', j) \<longrightarrow>
              (d', j) \<noteq> (d, i)
            \<and> is_due (tm_hour lt) (tm_min lt) (weekEvents (run_ticks pre s) ! d' ! j)
            \<and> schedulerTick lt ms_off ms_pulse (run_ticks pre s)
                = fire_event d' j ms_pulse (auto_off ms_off (run_ticks pre s))
            \<and> pin_writes (schedulerTick lt ms_off ms_pulse (run_ticks pre s))
                = pin_writes (auto_off ms_off (run_ticks pre s)) @ [LOW]
            \<and> relayOffAtMs (schedulerTick lt ms_off ms_pulse (run_ticks pre s)) =
                ms_pulse + word_of_int
                  (if duration (weekEvents (run_ticks pre s) ! d' ! j) < 1 then 1
                   else duration (weekEvents (run_ticks pre s) ! d' ! j)) * 1000)
        \<and> ((\<forall>e\<in>set (weekEvents (run_ticks pre s) ! today lt).
                enabled e \<and> hh e = tm_hour lt \<and> mm e = tm_min lt \<longrightarrow> firedToday e)
            \<longrightarrow> tick_fires lt (run_ticks pre s) = None)"
    if split: "ticks = pre @ (lt, ms_off, ms_pulse) # post" for pre lt ms_off ms_pulse post
  proof -
    have pre: "\<forall>x\<in>set pre. tm_yday (fst x) = lastYDay s"
      using assms(1) split by simp
    from same_day_run [OF pre assms(2,3,4)]
    have inv: "firedToday (weekEvents (run_ticks pre s) ! d ! i)"
      "lastYDay (run_ticks pre s) = lastYDay s"
      "d < length (weekEvents (run_ticks pre s))"
      "i < length (weekEvents (run_ticks pre s) ! d)" by simp_all
    have day: "tm_yday lt = lastYDay (run_ticks pre s)"
      using assms(1) split inv(2) by simp
    note r = same_day_tick_relay [OF day inv(3,4,1)]
    from inv(1) r(1) r(2) [of ms_off ms_pulse] r(3) [of ms_off ms_pulse] r(4) show ?thesis by blast
  qed
  from whole each show ?thesis by blast
qed

theorem fired_event_stays_silent_witness:
  "ticks_fired [(wed_0800, 0, 1000), (wed_0800, 10, 1010)] rung = [Some (2, 1), None]
   \<and> Some (2, 0) \<notin> set (ticks_fired [(wed_0800, 0, 1000), (wed_0800, 10, 1010)] rung)
   \<and> firedToday (weekEvents (run_ticks [(wed_0800, 0, 1000), (wed_0800, 10, 1010)] rung) ! 2 ! 0)
   \<and> pin_writes (run_ticks [(wed_0800, 0, 1000)] rung) = [LOW]
   \<and> relayOffAtMs (run_ticks [(wed_0800, 0, 1000)] rung) = 8000
   \<and> schedulerTick wed_0800 10 1010 (run_ticks [(wed_0800, 0, 1000)] rung)
       = auto_off 10 (run_ticks [(wed_0800, 0, 1000)] rung)
   \<and> pin_writes (run_ticks [(wed_0800, 0, 1000), (wed_0800, 10, 1010)] rung) = [LOW]
   \<and> relayOffAtMs (run_ticks [(wed_0800, 0, 1000), (wed_0800, 10, 1010)] rung) = 8000"
proof -
  let ?ticks = "[(wed_0800, 0 :: 32 word, 1000 :: 32 word), (wed_0800, 10, 1010)]"
  let ?s0 = "run_ticks [(wed_0800, 0 :: 32 word, 1000 :: 32 word)] rung"
  have h: "\<forall>x\<in>set ?ticks. tm_yday (fst x) = lastYDay rung"
    "2 < length (weekEvents rung)" "0 < length (weekEvents rung ! 2)"
    "firedToday (weekEvents rung ! 2 ! 0)"
    by (simp_all add: rung_def boot_state_def wed_0800_def bell_def)
  note th = fired_event_stays_silent [OF h]
  have s0: "?s0 = boot_state\<lparr>weekEvents := [[], [], [bell 8 0 5 True, bell 8 0 7 True], [], [], [], []],
                 lastYDay := 100, relayOn := True, relayOffAtMs := 8000, pin_writes := [LOW]\<rparr>"
    by (simp add: tick_eval getLocal_def wed_0800_def rung_def boot_state_def
        bell_def day_change_def auto_off_fields fire_event_def relayPulse_def relayWrite_def
        RELAY_ACTIVE_LOW_def Let_def)
  have ev: "ticks_fired ?ticks rung = [Some (2, 1), None]"
    by (simp add: tick_fires_def tick_eval getLocal_def wed_0800_def rung_def boot_state_def
        bell_def day_change_def auto_off_fields fire_event_def relayPulse_def relayWrite_def
        RELAY_ACTIVE_LOW_def Let_def)
  have none: "tick_fires wed_0800 ?s0 = None"
    unfolding s0
    by (simp add: tick_fires_def getLocal_def wed_0800_def boot_state_def bell_def day_change_def)
  have split: "?ticks = [(wed_0800, 0, 1000)] @ (wed_0800, 10, 1010) # []" by simp
  from th split none
  have quiet: "schedulerTick wed_0800 10 1010 ?s0 = auto_off 10 ?s0
     \<and> relayOffAtMs (schedulerTick wed_0800 10 1010 ?s0) = relayOffAtMs ?s0
     \<and> (pin_writes (schedulerTick wed_0800 10 1010 ?s0) = pin_writes ?s0
        \<or> pin_writes (schedulerTick wed_0800 10 1010 ?s0) = pin_writes ?s0 @ [HIGH])"
    by blast
  have run2: "run_ticks ?ticks rung = schedulerTick wed_0800 10 1010 ?s0" by simp
  have off: "auto_off 10 ?s0 = ?s0" unfolding s0 by (simp add: auto_off_fields boot_state_def)
  from th have a: "Some (2, 0) \<notin> set (ticks_fired ?ticks rung)"
    and b: "firedToday (weekEvents (run_ticks ?ticks rung) ! 2 ! 0)" by blast+
  have c: "pin_writes ?s0 = [LOW]" "relayOffAtMs ?s0 = 8000" unfolding s0 by simp_all
  from quiet off c have d: "pin_writes (schedulerTick wed_0800 10 1010 ?s0) = [LOW]"
    "relayOffAtMs (schedulerTick wed_0800 10 1010 ?s0) = 8000" by simp_all
  from quiet have e: "schedulerTick wed_0800 10 1010 ?s0 = auto_off 10 ?s0" by blast
  show ?thesis
    using ev a b c d e unfolding run2 by blast
qed

text \<open>
  C5, as the code has it. After every tick the recorded day is the day of the clock,
  and the tick keeps the shape of the table. If the day differs from the recorded
  one, the tick first clears the fired mark of every entry of every row; it then goes
  on to match, so after the tick an entry is marked fired only if this very tick
  fired it. If the day is the recorded one, no fired mark is cleared: within the tick
  the reset is the only place that clears marks, and it does not run again until the
  day changes.
\<close>

theorem day_change_rearms:
  fixes lt :: tm and s :: state and ms_off ms_pulse :: "32 word"
  defines "s' \<equiv> schedulerTick lt ms_off ms_pulse s"
  shows "lastYDay s' = tm_yday lt
     \<and> length (weekEvents s') = length (weekEvents s)
     \<and> (\<forall>d<length (weekEvents s). length (weekEvents s' ! d) = length (weekEvents s ! d))
     \<and> (lastYDay s \<noteq> tm_yday lt \<longrightarrow>
          (\<forall>row\<in>set (weekEvents (day_change (tm_yday lt) s)). \<forall>e\<in>set row. \<not> firedToday e)
        \<and> (\<forall>d<length (weekEvents s). \<forall>i<length (weekEvents s ! d).
              firedToday (weekEvents s' ! d ! i) \<longrightarrow> tick_fires lt s = Some (d, i)))
     \<and> (lastYDay s = tm_yday lt \<longrightarrow>
          (\<forall>d<length (weekEvents s). \<forall>i<length (weekEvents s ! d).
              firedToday (weekEvents s ! d ! i) \<longrightarrow> firedToday (weekEvents s' ! d ! i)))"
proof -
  let ?w = "weekEvents (day_change (tm_yday lt) s)"
  have a: "lastYDay s' = tm_yday lt" by (simp add: s'_def schedulerTick_lastYDay)
  have b: "length (weekEvents s') = length (weekEvents s)"
    by (simp add: s'_def schedulerTick_lengths)
  have c: "\<forall>d<length (weekEvents s). length (weekEvents s' ! d) = length (weekEvents s ! d)"
    by (simp add: s'_def schedulerTick_lengths)
  have d1: "\<forall>row\<in>set ?w. \<forall>e\<in>set row. \<not> firedToday e" if "lastYDay s \<noteq> tm_yday lt"
    using that by (rule day_change_unfired)
  have d2: "tick_fires lt s = Some (d, i)"
    if new: "lastYDay s \<noteq> tm_yday lt" and d: "d < length (weekEvents s)"
      and i: "i < length (weekEvents s ! d)" and f: "firedToday (weekEvents s' ! d ! i)" for d i
  proof -
    have un: "\<not> firedToday (?w ! d ! i)"
      using new d i by (simp add: day_change_row)
    show ?thesis
    proof (cases "tick_fires lt s")
      case None
      with f un show ?thesis by (simp add: s'_def schedulerTick_events)
    next
      case (Some p)
      obtain a b where p: "p = (a, b)" by (cases p)
      have "a = d \<and> b = i"
      proof (rule ccontr)
        assume "\<not> (a = d \<and> b = i)"
        then have "a \<noteq> d \<or> b \<noteq> i" by simp
        then have eq: "?w[a := (?w ! a)[b := (?w ! a ! b)\<lparr>firedToday := True\<rparr>]] ! d ! i = ?w ! d ! i"
          by (rule update_row_other)
        have "firedToday (?w[a := (?w ! a)[b := (?w ! a ! b)\<lparr>firedToday := True\<rparr>]] ! d ! i)"
          using f Some p by (simp add: s'_def schedulerTick_events Let_def)
        with eq un show False by simp
      qed
      with Some p show ?thesis by simp
    qed
  qed
  have e: "firedToday (weekEvents s' ! d ! i)"
    if "lastYDay s = tm_yday lt" "d < length (weekEvents s)" "i < length (weekEvents s ! d)"
      "firedToday (weekEvents s ! d ! i)" for d i
    unfolding s'_def using that by (intro same_day_step(2)) simp_all
  show ?thesis using a b c d1 d2 e by blast
qed

theorem day_change_rearms_witness:
  "lastYDay (schedulerTick monday_midnight 0 0 sunday_night) = 101
   \<and> tick_fires monday_midnight sunday_night = Some (0, 0)
   \<and> weekEvents (day_change 101 sunday_night)
       = [[bell 0 0 5 False], [], [], [], [], [], [bell 23 0 5 False]]
   \<and> firedToday (weekEvents (schedulerTick wed_0800 0 0 rung) ! 2 ! 0)"
proof -
  note a = day_change_rearms [of monday_midnight 0 0 sunday_night]
  note b = day_change_rearms [of wed_0800 0 0 rung]
  have new: "lastYDay sunday_night \<noteq> tm_yday monday_midnight"
    and same: "lastYDay rung = tm_yday wed_0800"
    and idx: "2 < length (weekEvents rung)" "0 < length (weekEvents rung ! 2)"
      "firedToday (weekEvents rung ! 2 ! 0)"
    by (simp_all add: sunday_night_def monday_midnight_def rung_def wed_0800_def boot_state_def bell_def)
  from b same idx have "firedToday (weekEvents (schedulerTick wed_0800 0 0 rung) ! 2 ! 0)"
    by blast
  moreover from a have "lastYDay (schedulerTick monday_midnight 0 0 sunday_night) = 101"
    by (simp add: monday_midnight_def)
  moreover have "tick_fires monday_midnight sunday_night = Some (0, 0)"
    by (simp add: tick_fires_def getLocal_def monday_midnight_def sunday_night_def boot_state_def
        bell_def day_change_def)
  moreover have "weekEvents (day_change 101 sunday_night)
       = [[bell 0 0 5 False], [], [], [], [], [], [bell 23 0 5 False]]"
    by (simp add: sunday_night_def boot_state_def bell_def day_change_def)
  ultimately show ?thesis by blast
qed

text \<open>
  C5 as stated fails. The first tick of the new day comes at Monday 00:00:00. It
  clears the marks, then matches Monday's 00:00 event and marks it. After that tick,
  on which the day changed, that event is marked fired.
\<close>

theorem day_change_same_tick_counterexample:
  "lastYDay sunday_night \<noteq> tm_yday monday_midnight
   \<and> firedToday (weekEvents (schedulerTick monday_midnight 0 0 sunday_night) ! 0 ! 0)"
  by (simp add: tick_eval getLocal_def monday_midnight_def sunday_night_def boot_state_def
      bell_def day_change_def auto_off_fields fire_event_def relayPulse_def relayWrite_def
      RELAY_ACTIVE_LOW_def Let_def)

subsection \<open>Next event\<close>

lemma fold_ha_step:
  assumes "fold (ha_step h m wday w) ps (b, bd) = (b', bd')"
  shows "bd' \<le> bd
       \<and> (\<forall>p\<in>set ps. enabled (w ! fst p ! snd p) \<longrightarrow>
             bd' \<le> delta_min h m wday (fst p) (w ! fst p ! snd p))
       \<and> ((b' = b \<and> bd' = bd)
          \<or> (\<exists>p\<in>set ps. enabled (w ! fst p ! snd p) \<and> b' = Some p
                \<and> bd' = delta_min h m wday (fst p) (w ! fst p ! snd p) \<and> bd' < bd))"
  using assms
proof (induction ps arbitrary: b bd)
  case Nil
  then show ?case by simp
next
  case (Cons p ps)
  obtain b1 bd1 where step: "ha_step h m wday w p (b, bd) = (b1, bd1)"
    by (cases "ha_step h m wday w p (b, bd)")
  with Cons.prems have rest: "fold (ha_step h m wday w) ps (b1, bd1) = (b', bd')" by simp
  note IH = Cons.IH [OF rest]
  let ?dl = "delta_min h m wday (fst p) (w ! fst p ! snd p)"
  have s: "(\<not> enabled (w ! fst p ! snd p) \<and> b1 = b \<and> bd1 = bd)
         \<or> (enabled (w ! fst p ! snd p) \<and> ?dl < bd \<and> b1 = Some p \<and> bd1 = ?dl)
         \<or> (enabled (w ! fst p ! snd p) \<and> bd \<le> ?dl \<and> b1 = b \<and> bd1 = bd)"
    using step by (auto simp: ha_step_def Let_def split: if_splits)
  from IH have le: "bd' \<le> bd1" by blast
  have c1: "bd' \<le> bd" using s le by auto
  have c2: "\<forall>q\<in>set (p # ps). enabled (w ! fst q ! snd q) \<longrightarrow>
             bd' \<le> delta_min h m wday (fst q) (w ! fst q ! snd q)"
    using s le IH by auto
  have c3: "(b' = b \<and> bd' = bd)
          \<or> (\<exists>q\<in>set (p # ps). enabled (w ! fst q ! snd q) \<and> b' = Some q
                \<and> bd' = delta_min h m wday (fst q) (w ! fst q ! snd q) \<and> bd' < bd)"
  proof -
    from IH consider (keep) "b' = b1" "bd' = bd1"
      | (new) q where "q \<in> set ps" "enabled (w ! fst q ! snd q)" "b' = Some q"
          "bd' = delta_min h m wday (fst q) (w ! fst q ! snd q)" "bd' < bd1"
      by blast
    then show ?thesis
    proof cases
      case keep
      with s show ?thesis by auto
    next
      case new
      moreover have "bd1 \<le> bd" using s by auto
      ultimately show ?thesis by (intro disjI2 bexI [of _ q]) auto
    qed
  qed
  from c1 c2 c3 show ?case by blast
qed

lemma set_visit_order:
  "set (visit_order w) = {(d, i). d < 7 \<and> i < length (w ! d)}"
  by (auto simp: visit_order_def)

lemma delta_min_mod:
  assumes "0 \<le> h" "h \<le> 23" "0 \<le> m" "m \<le> 59" "0 \<le> wday" "wday \<le> 6" "d < 7" "valid_time e"
  shows "delta_min h m wday d e
           = ((int d * 1440 + (hh e * 60 + mm e)) - (wday * 1440 + (h * 60 + m))) mod 10080"
    and "0 \<le> delta_min h m wday d e" and "delta_min h m wday d e < 10080"
proof -
  define k where "k = int d - wday"
  define diff where "diff = (hh e * 60 + mm e) - (h * 60 + m)"
  have k: "- 6 \<le> k" "k \<le> 6" using assms by (simp_all add: k_def)
  have diff: "- 1439 \<le> diff" "diff \<le> 1439"
    using assms by (simp_all add: diff_def valid_time_def)
  have tgt: "(int d * 1440 + (hh e * 60 + mm e)) - (wday * 1440 + (h * 60 + m)) = k * 1440 + diff"
    by (simp add: k_def diff_def algebra_simps)
  have dm: "delta_min h m wday d e =
      (if k < 0 then (k + 7) * 1440 + diff
       else if k = 0 then (if diff < 0 then diff + 10080 else diff)
       else k * 1440 + diff)"
    using k by (auto simp: delta_min_def Let_def k_def diff_def)
  have rng: "0 \<le> delta_min h m wday d e \<and> delta_min h m wday d e < 10080"
    unfolding dm using k diff by auto
  have "\<exists>c. delta_min h m wday d e = k * 1440 + diff + c * 10080"
  proof (cases "k < 0 \<or> (k = 0 \<and> diff < 0)")
    case True
    then have "delta_min h m wday d e = k * 1440 + diff + 1 * 10080"
      unfolding dm by auto
    then show ?thesis by blast
  next
    case False
    then have "delta_min h m wday d e = k * 1440 + diff + 0 * 10080"
      unfolding dm by auto
    then show ?thesis by blast
  qed
  then obtain c where c: "delta_min h m wday d e = k * 1440 + diff + c * 10080" by blast
  have "(k * 1440 + diff) mod 10080 = (k * 1440 + diff + c * 10080) mod 10080" by simp
  also have "\<dots> = delta_min h m wday d e"
    unfolding c [symmetric] using rng by simp
  finally show "delta_min h m wday d e
           = ((int d * 1440 + (hh e * 60 + mm e)) - (wday * 1440 + (h * 60 + m))) mod 10080"
    unfolding tgt by simp
  from rng show "0 \<le> delta_min h m wday d e" and "delta_min h m wday d e < 10080" by simp_all
qed

lemma next_event_result:
  assumes clock: "0 \<le> h" "h \<le> 23" "0 \<le> m" "m \<le> 59" "0 \<le> wday" "wday \<le> 6"
    and valid: "\<forall>d<7. \<forall>e\<in>set (w ! d). valid_time e"
  shows "(next_event h m wday w = None \<longleftrightarrow> (\<forall>d<7. \<forall>e\<in>set (w ! d). \<not> enabled e))"
    and "next_event h m wday w = Some (d, i, delta) \<Longrightarrow>
           d < 7 \<and> i < length (w ! d) \<and> enabled (w ! d ! i)
         \<and> delta = delta_min h m wday d (w ! d ! i)
         \<and> (\<forall>d'<7. \<forall>i'<length (w ! d'). enabled (w ! d' ! i') \<longrightarrow>
               delta \<le> delta_min h m wday d' (w ! d' ! i'))"
proof -
  obtain b bd where f: "fold (ha_step h m wday w) (visit_order w) (None, 8 * 24 * 60) = (b, bd)"
    by (cases "fold (ha_step h m wday w) (visit_order w) (None, 8 * 24 * 60)")
  note inv = fold_ha_step [OF f]
  have ne: "next_event h m wday w = (case b of None \<Rightarrow> None | Some (d, i) \<Rightarrow> Some (d, i, bd))"
    unfolding next_event_def f by (simp split: option.split)
  have small: "delta_min h m wday d' (w ! d' ! i') < 8 * 24 * 60"
    if "d' < 7" "i' < length (w ! d')" for d' i'
  proof -
    have "valid_time (w ! d' ! i')" using valid that by simp
    from delta_min_mod(3) [OF clock that(1) this] show ?thesis by simp
  qed
  have min: "bd \<le> delta_min h m wday d' (w ! d' ! i')"
    if "d' < 7" "i' < length (w ! d')" "enabled (w ! d' ! i')" for d' i'
  proof -
    have "(d', i') \<in> set (visit_order w)" using that by (simp add: set_visit_order)
    with inv that(3) show ?thesis by fastforce
  qed
  show "(next_event h m wday w = None \<longleftrightarrow> (\<forall>d<7. \<forall>e\<in>set (w ! d). \<not> enabled e))"
  proof
    assume "next_event h m wday w = None"
    then have b: "b = None" by (auto simp: ne split: option.splits)
    with inv have bd: "bd = 8 * 24 * 60" by auto
    show "\<forall>d<7. \<forall>e\<in>set (w ! d). \<not> enabled e"
    proof (intro allI impI ballI notI)
      fix d e assume d: "d < 7" and e: "e \<in> set (w ! d)" and en: "enabled e"
      from e obtain i where i: "i < length (w ! d)" "w ! d ! i = e"
        by (auto simp: in_set_conv_nth)
      from min [OF d i(1)] en i(2) have "bd \<le> delta_min h m wday d (w ! d ! i)" by simp
      with small [OF d i(1)] bd show False by simp
    qed
  next
    assume none: "\<forall>d<7. \<forall>e\<in>set (w ! d). \<not> enabled e"
    have "\<not> enabled (w ! fst p ! snd p)" if "p \<in> set (visit_order w)" for p
      using that none by (auto simp: set_visit_order)
    with inv have "b = None" by blast
    then show "next_event h m wday w = None" by (simp add: ne)
  qed
  show "d < 7 \<and> i < length (w ! d) \<and> enabled (w ! d ! i)
         \<and> delta = delta_min h m wday d (w ! d ! i)
         \<and> (\<forall>d'<7. \<forall>i'<length (w ! d'). enabled (w ! d' ! i') \<longrightarrow>
               delta \<le> delta_min h m wday d' (w ! d' ! i'))"
    if some: "next_event h m wday w = Some (d, i, delta)"
  proof -
    from some have b: "b = Some (d, i)" and bd: "bd = delta"
      by (auto simp: ne split: option.splits)
    from inv b obtain p where p: "p \<in> set (visit_order w)" "enabled (w ! fst p ! snd p)"
      "b = Some p" "bd = delta_min h m wday (fst p) (w ! fst p ! snd p)"
      by auto
    from p(3) b have pd: "p = (d, i)" by simp
    from p(1) pd have "d < 7" "i < length (w ! d)" by (simp_all add: set_visit_order)
    moreover from p(2) pd have "enabled (w ! d ! i)" by simp
    moreover from p(4) pd bd have "delta = delta_min h m wday d (w ! d ! i)" by simp
    moreover have "\<forall>d'<7. \<forall>i'<length (w ! d'). enabled (w ! d' ! i') \<longrightarrow>
               delta \<le> delta_min h m wday d' (w ! d' ! i')"
      using min bd by simp
    ultimately show ?thesis by blast
  qed
qed

lemma day_offset_mod:
  assumes "0 \<le> wday" "wday \<le> 6" "d < 7"
  shows "(int d - wday) mod 7 = (if int d - wday < 0 then int d - wday + 7 else int d - wday)"
proof (cases "int d - wday < 0")
  case True
  have "(int d - wday) mod 7 = (int d - wday + 7) mod 7" by simp
  also have "\<dots> = int d - wday + 7" using True assms by (intro mod_pos_pos_trivial) simp_all
  finally show ?thesis using True by simp
next
  case False
  then have "(int d - wday) mod 7 = int d - wday"
    using assms by (intro mod_pos_pos_trivial) simp_all
  then show ?thesis using False by simp
qed

lemma delta_min_cases:
  assumes "0 \<le> wday" "wday \<le> 6" "d < 7"
  shows "int d = wday \<longrightarrow> delta_min h m wday d e =
           (if hh e * 60 + mm e < h * 60 + m
            then (hh e * 60 + mm e) - (h * 60 + m) + 7 * 24 * 60
            else (hh e * 60 + mm e) - (h * 60 + m))"
    and "int d \<noteq> wday \<longrightarrow> delta_min h m wday d e =
           ((int d - wday) mod 7) * (24 * 60) + ((hh e * 60 + mm e) - (h * 60 + m))"
  using assms by (auto simp: day_offset_mod [OF assms] delta_min_def Let_def)

text \<open>
  C8. The clock gives an hour, a minute and a weekday, and the table satisfies its
  invariant. \<open>next_event\<close> returns nothing exactly when no row holds an enabled
  event. Otherwise it returns an enabled event of the table together with its
  minutes-until, and no enabled event of any of the seven rows has a smaller
  minutes-until. The minutes-until of an event of today's row is the difference of
  the two times of day, plus a week when the event is already past; for another row
  it is the number of days from today forward to that row, times 1440, plus the
  difference of the times of day; in both cases it is the distance from now to the
  event in the cyclic week of 10080 minutes. At 17:00, when today's row holds an
  enabled event at 18:00 and its other enabled events are already past, the result is
  that event with 60 minutes.
\<close>

theorem next_event_minimum:
  assumes clock: "0 \<le> h" "h \<le> 23" "0 \<le> m" "m \<le> 59" "0 \<le> wday" "wday \<le> 6"
    and valid: "\<forall>d<7. \<forall>e\<in>set (w ! d). valid_time e"
  shows "(next_event h m wday w = None \<longleftrightarrow> (\<forall>d<7. \<forall>e\<in>set (w ! d). \<not> enabled e))
     \<and> (\<forall>d i delta. next_event h m wday w = Some (d, i, delta) \<longrightarrow>
          d < 7 \<and> i < length (w ! d) \<and> enabled (w ! d ! i)
        \<and> delta = delta_min h m wday d (w ! d ! i)
        \<and> (\<forall>d'<7. \<forall>i'<length (w ! d'). enabled (w ! d' ! i') \<longrightarrow>
              delta \<le> delta_min h m wday d' (w ! d' ! i')))
     \<and> (\<forall>d<7. \<forall>e\<in>set (w ! d).
          (int d = wday \<longrightarrow> delta_min h m wday d e =
             (if hh e * 60 + mm e < h * 60 + m
              then (hh e * 60 + mm e) - (h * 60 + m) + 7 * 24 * 60
              else (hh e * 60 + mm e) - (h * 60 + m)))
        \<and> (int d \<noteq> wday \<longrightarrow> delta_min h m wday d e =
             ((int d - wday) mod 7) * (24 * 60) + ((hh e * 60 + mm e) - (h * 60 + m)))
        \<and> delta_min h m wday d e
            = ((int d * 1440 + (hh e * 60 + mm e)) - (wday * 1440 + (h * 60 + m))) mod 10080)
     \<and> (h = 17 \<and> m = 0 \<and> i0 < length (w ! nat wday) \<and> enabled (w ! nat wday ! i0)
        \<and> hh (w ! nat wday ! i0) = 18 \<and> mm (w ! nat wday ! i0) = 0
        \<and> (\<forall>k<length (w ! nat wday). k \<noteq> i0 \<longrightarrow> enabled (w ! nat wday ! k) \<longrightarrow>
              hh (w ! nat wday ! k) * 60 + mm (w ! nat wday ! k) < 17 * 60)
        \<longrightarrow> next_event h m wday w = Some (nat wday, i0, 60))"
proof -
  note res = next_event_result [OF clock valid]
  have p1: "next_event h m wday w = None \<longleftrightarrow> (\<forall>d<7. \<forall>e\<in>set (w ! d). \<not> enabled e)"
    by (rule res(1))
  have p2: "\<forall>d i delta. next_event h m wday w = Some (d, i, delta) \<longrightarrow>
          d < 7 \<and> i < length (w ! d) \<and> enabled (w ! d ! i)
        \<and> delta = delta_min h m wday d (w ! d ! i)
        \<and> (\<forall>d'<7. \<forall>i'<length (w ! d'). enabled (w ! d' ! i') \<longrightarrow>
              delta \<le> delta_min h m wday d' (w ! d' ! i'))"
    using res(2) by blast
  have p3: "\<forall>d<7. \<forall>e\<in>set (w ! d).
          (int d = wday \<longrightarrow> delta_min h m wday d e =
             (if hh e * 60 + mm e < h * 60 + m
              then (hh e * 60 + mm e) - (h * 60 + m) + 7 * 24 * 60
              else (hh e * 60 + mm e) - (h * 60 + m)))
        \<and> (int d \<noteq> wday \<longrightarrow> delta_min h m wday d e =
             ((int d - wday) mod 7) * (24 * 60) + ((hh e * 60 + mm e) - (h * 60 + m)))
        \<and> delta_min h m wday d e
            = ((int d * 1440 + (hh e * 60 + mm e)) - (wday * 1440 + (h * 60 + m))) mod 10080"
  proof (intro allI impI ballI)
    fix d e assume d: "d < 7" and e: "e \<in> set (w ! d)"
    from valid d e have v: "valid_time e" by simp
    from delta_min_cases [OF clock(5,6) d, of h m e] delta_min_mod(1) [OF clock d v]
    show "(int d = wday \<longrightarrow> delta_min h m wday d e =
             (if hh e * 60 + mm e < h * 60 + m
              then (hh e * 60 + mm e) - (h * 60 + m) + 7 * 24 * 60
              else (hh e * 60 + mm e) - (h * 60 + m)))
        \<and> (int d \<noteq> wday \<longrightarrow> delta_min h m wday d e =
             ((int d - wday) mod 7) * (24 * 60) + ((hh e * 60 + mm e) - (h * 60 + m)))
        \<and> delta_min h m wday d e
            = ((int d * 1440 + (hh e * 60 + mm e)) - (wday * 1440 + (h * 60 + m))) mod 10080"
      by blast
  qed
  have p4: "next_event h m wday w = Some (nat wday, i0, 60)"
    if ex: "h = 17 \<and> m = 0 \<and> i0 < length (w ! nat wday) \<and> enabled (w ! nat wday ! i0)
        \<and> hh (w ! nat wday ! i0) = 18 \<and> mm (w ! nat wday ! i0) = 0
        \<and> (\<forall>k<length (w ! nat wday). k \<noteq> i0 \<longrightarrow> enabled (w ! nat wday ! k) \<longrightarrow>
              hh (w ! nat wday ! k) * 60 + mm (w ! nat wday ! k) < 17 * 60)"
  proof -
    let ?t = "nat wday"
    have t: "?t < 7" "int ?t = wday" using clock by simp_all
    have d0: "delta_min h m wday ?t (w ! ?t ! i0) = 60"
      using ex t by (simp add: delta_min_def Let_def)
    have "w ! ?t ! i0 \<in> set (w ! ?t)" using ex by simp
    with t(1) ex res(1) have "next_event h m wday w \<noteq> None" by blast
    then obtain d i delta where some: "next_event h m wday w = Some (d, i, delta)"
      by (cases "next_event h m wday w") auto
    note r = res(2) [OF some]
    from r t(1) ex d0 have le: "delta \<le> 60" by fastforce
    from r have "w ! d ! i \<in> set (w ! d)" by simp
    with r valid have v: "valid_time (w ! d ! i)" by blast
    have dd: "d = ?t"
    proof (rule ccontr)
      assume "d \<noteq> ?t"
      then have ne: "int d \<noteq> wday" using t by linarith
      have "d < 7" using r by simp
      from day_offset_mod [OF clock(5,6) this] ne clock(5,6) have "1 \<le> (int d - wday) mod 7"
        by (simp split: if_splits)
      moreover have "delta = ((int d - wday) mod 7) * (24 * 60)
                       + ((hh (w ! d ! i) * 60 + mm (w ! d ! i)) - (h * 60 + m))"
        using delta_min_cases(2) [OF clock(5,6), of d h m "w ! d ! i"] r ne by simp
      ultimately have "420 \<le> delta" using v ex by (simp add: valid_time_def)
      with le show False by simp
    qed
    have ii: "i = i0"
    proof (rule ccontr)
      assume "i \<noteq> i0"
      with ex r dd have "hh (w ! ?t ! i) * 60 + mm (w ! ?t ! i) < 17 * 60" by simp
      moreover have "delta = delta_min h m wday ?t (w ! ?t ! i)" using r dd by simp
      ultimately have "delta = (hh (w ! ?t ! i) * 60 + mm (w ! ?t ! i)) - 1020 + 10080"
        using t ex by (simp add: delta_min_def Let_def)
      moreover have "0 \<le> hh (w ! ?t ! i) * 60 + mm (w ! ?t ! i)"
        using v dd by (simp add: valid_time_def)
      ultimately show False using le by simp
    qed
    from r dd ii d0 have "delta = 60" by simp
    with some dd ii show ?thesis by simp
  qed
  from p1 p2 p3 p4 show ?thesis by blast
qed

theorem next_event_minimum_witness:
  "next_event 17 0 2 wednesday_bell = Some (2, 1, 60)"
proof -
  have clock: "(0::int) \<le> 17" "(17::int) \<le> 23" "(0::int) \<le> 0" "(0::int) \<le> 59"
    "(0::int) \<le> 2" "(2::int) \<le> 6" by simp_all
  have valid: "\<forall>d<7. \<forall>e\<in>set (wednesday_bell ! d). valid_time e"
    by (simp add: wednesday_bell_def bell_def valid_time_def less_Suc_eq
        numeral_eq_Suc all_conj_distrib)
  note th = next_event_minimum [OF clock valid, of 1]
  have ex: "(17::int) = 17 \<and> (0::int) = 0 \<and> 1 < length (wednesday_bell ! nat 2)
        \<and> enabled (wednesday_bell ! nat 2 ! 1)
        \<and> hh (wednesday_bell ! nat 2 ! 1) = 18 \<and> mm (wednesday_bell ! nat 2 ! 1) = 0
        \<and> (\<forall>k<length (wednesday_bell ! nat 2). k \<noteq> 1 \<longrightarrow> enabled (wednesday_bell ! nat 2 ! k) \<longrightarrow>
              hh (wednesday_bell ! nat 2 ! k) * 60 + mm (wednesday_bell ! nat 2 ! k) < 17 * 60)"
    by (simp add: wednesday_bell_def bell_def less_Suc_eq numeral_eq_Suc)
  from th ex have "next_event 17 0 2 wednesday_bell = Some (nat 2, 1, 60)" by blast
  then show ?thesis by simp
qed

subsection \<open>Storage\<close>

lemma read_events_acc:
  "length acc \<le> MAX_EVENTS_PER_DAY \<Longrightarrow>
     read_events objs acc =
       acc @ take (MAX_EVENTS_PER_DAY - length acc)
               (map entry_event (filter (\<lambda>obj. time_accepted (entry_time obj)) objs))"
proof (induction objs arbitrary: acc)
  case Nil
  then show ?case by simp
next
  case (Cons obj rest)
  show ?case
  proof (cases "length acc \<ge> MAX_EVENTS_PER_DAY")
    case True
    with Cons.prems show ?thesis by simp
  next
    case False
    then have room: "length acc < MAX_EVENTS_PER_DAY" by simp
    show ?thesis
    proof (cases "time_accepted (entry_time obj)")
      case True
      have "read_events (obj # rest) acc = read_events rest (acc @ [entry_event obj])"
        using True room
        by (simp add: time_accepted_def entry_time_def entry_event_def Let_def)
      also have "\<dots> = (acc @ [entry_event obj]) @
          take (MAX_EVENTS_PER_DAY - length (acc @ [entry_event obj]))
            (map entry_event (filter (\<lambda>obj. time_accepted (entry_time obj)) rest))"
        using room by (intro Cons.IH) simp
      finally show ?thesis using True room by (simp add: take_Cons')
    next
      case False
      have "read_events (obj # rest) acc = read_events rest acc"
        using False room
        by (auto simp: time_accepted_def entry_time_def Let_def)
      with Cons.IH [OF Cons.prems] False show ?thesis by simp
    qed
  qed
qed

lemma read_events_stored_row: "read_events objs [] = stored_row objs"
  using read_events_acc [of "[]" objs] by (simp add: stored_row_def)

lemma stored_row_props:
  "length (stored_row objs) \<le> 64"
  "e \<in> set (stored_row objs) \<Longrightarrow> valid_time e \<and> 1 \<le> duration e \<and> \<not> firedToday e"
proof -
  show "length (stored_row objs) \<le> 64" by (simp add: stored_row_def MAX_EVENTS_PER_DAY_def)
  assume "e \<in> set (stored_row objs)"
  then have "e \<in> set (map entry_event (filter (\<lambda>obj. time_accepted (entry_time obj)) objs))"
    unfolding stored_row_def by (rule in_set_takeD)
  then obtain obj where "time_accepted (entry_time obj)" "e = entry_event obj" by auto
  then show "valid_time e \<and> 1 \<le> duration e \<and> \<not> firedToday e"
    by (auto simp: time_accepted_def entry_event_def valid_time_def)
qed

lemma or_int_range: "or_int j d < 2 ^ 31 \<or> or_int j d = d"
  by (cases j) simp_all

lemma stored_row_duration_int:
  assumes "e \<in> set (stored_row objs)"
  shows "duration e < 2 ^ 31"
proof -
  from assms have "e \<in> set (map entry_event (filter (\<lambda>obj. time_accepted (entry_time obj)) objs))"
    unfolding stored_row_def by (rule in_set_takeD)
  then obtain obj where e: "e = entry_event obj" by auto
  from or_int_range [of "member obj ''duration''" 5] show ?thesis
    unfolding e by (auto simp: entry_event_def)
qed


lemma saveWeekToFS_eq:
  "saveWeekToFS s =
     (if fs_writable s
      then (True, s\<lparr>fs_file := Some (read_back (build_week_doc (weekEvents s))),
                     fs_writes := fs_writes s @ [build_week_doc (weekEvents s)]\<rparr>)
      else (False, s))"
  by (simp add: saveWeekToFS_def Let_def)

lemma saveDayFromJson_array:
  assumes "0 \<le> day" "day \<le> 6"
  shows "saveDayFromJson day (Parsed (JArr objs)) s =
           saveWeekToFS (s\<lparr>weekEvents := (weekEvents s)[nat day := stored_row objs]\<rparr>)"
  using assms by (simp add: saveDayFromJson_def read_events_stored_row)

lemma loadWeekFromFS_present:
  "fs_file s = Some content \<Longrightarrow>
   loadWeekFromFS s =
     (if \<not> fs_readable s then (False, s)
      else (case content of
              Garbage \<Rightarrow> (False, s)
            | Parsed doc \<Rightarrow>
                if \<not> is_array (member doc ''days'') then (False, s)
                else if length (as_array (member doc ''days'')) \<noteq> 7 then (False, s)
                else (True, s\<lparr>weekEvents :=
                        map (\<lambda>d. stored_row (as_array (as_array (member doc ''days'') ! d))) [0..<7]\<rparr>)))"
  by (simp add: loadWeekFromFS_def read_events_stored_row Let_def split: stored.split)

lemma loadWeekFromFS_absent:
  "fs_file s = None \<Longrightarrow> loadWeekFromFS s = saveWeekToFS (seedDefaultWeek s)"
  by (simp add: loadWeekFromFS_def)

lemma seed_fields:
  "weekEvents (seedDefaultWeek s) = default_week"
  "fs_writable (seedDefaultWeek s) = fs_writable s"
  "fs_writes (seedDefaultWeek s) = fs_writes s"
  by (simp_all add: seedDefaultWeek_def default_week_def)

lemma load_failed_cases:
  assumes "fst (loadWeekFromFS s) = False"
  shows "snd (loadWeekFromFS s) = s \<or> snd (loadWeekFromFS s) = seedDefaultWeek s"
proof (cases "fs_file s")
  case None
  with assms show ?thesis
    by (auto simp: loadWeekFromFS_absent saveWeekToFS_eq split: if_splits)
next
  case (Some content)
  with assms show ?thesis
    by (auto simp: loadWeekFromFS_present split: if_splits stored.splits)
qed

lemma setup_load_eq:
  "setup_load s =
     (if fst (loadWeekFromFS s) then snd (loadWeekFromFS s)
      else snd (saveWeekToFS (seedDefaultWeek (snd (loadWeekFromFS s)))))"
  by (cases "loadWeekFromFS s") (auto simp: setup_load_def)

lemma seed_day_length: "length seed_day = 26"
  by (simp add: seed_day_def default_times_def MAX_EVENTS_PER_DAY_def)

lemma parse_positions:
  "parseHH ([a, b, c, d, e] @ rest) = parseHH [a, b, c', d, e]"
  "parseMM ([a, b, c, d, e] @ rest) = parseMM [a, b, c', d, e]"
  "time_accepted ([a, b, c, d, e] @ rest) = time_accepted [a, b, c', d, e]"
  by (simp_all add: time_accepted_def parseHH_def parseMM_def digit_at_def)

lemma stored_row_single:
  "time_accepted t \<Longrightarrow> stored_row [time_entry t] = [bell (parseHH t) (parseMM t) 5 False]"
  by (simp add: stored_row_def time_entry_def entry_time_def entry_event_def bell_def
      MAX_EVENTS_PER_DAY_def)

text \<open>
  C9. The test on a time string is exactly: at least five characters, and the
  characters at positions 0, 1 and 3, 4, each taken as its code minus the code of
  \<open>0\<close>, give an hour 0..23 and a minute 0..59. The character at position 2 and
  everything after position 4 play no part: replacing the former by a colon and
  dropping the latter changes neither the verdict nor the hour and minute. An element
  whose time passes the test is stored by \<open>saveDayFromJson\<close> and by
  \<open>loadWeekFromFS\<close> with that hour and minute. The string \<open>12x3400\<close> is not a
  well-formed \<open>HH:MM\<close> and passes the test as 12:34.
\<close>

theorem loose_time_validation:
  "(time_accepted t \<longleftrightarrow>
      5 \<le> length t
      \<and> 0 \<le> digit_at t 0 * 10 + digit_at t 1 \<and> digit_at t 0 * 10 + digit_at t 1 \<le> 23
      \<and> 0 \<le> digit_at t 3 * 10 + digit_at t 4 \<and> digit_at t 3 * 10 + digit_at t 4 \<le> 59)
   \<and> time_accepted ([a, b, c, d, e] @ rest) = time_accepted [a, b, CHR '':'', d, e]
   \<and> parseHH ([a, b, c, d, e] @ rest) = parseHH [a, b, CHR '':'', d, e]
   \<and> parseMM ([a, b, c, d, e] @ rest) = parseMM [a, b, CHR '':'', d, e]
   \<and> (time_accepted t \<and> 0 \<le> day \<and> day \<le> 6 \<and> length (weekEvents s) = 7 \<longrightarrow>
        weekEvents (snd (saveDayFromJson day (Parsed (JArr [time_entry t])) s)) ! nat day
          = [bell (parseHH t) (parseMM t) 5 False])
   \<and> (time_accepted t \<and> fs_file s = Some (Parsed (week_doc days)) \<and> fs_readable s
        \<and> length days = 7 \<and> k < 7 \<and> days ! k = JArr [time_entry t] \<longrightarrow>
        fst (loadWeekFromFS s)
        \<and> weekEvents (snd (loadWeekFromFS s)) ! k = [bell (parseHH t) (parseMM t) 5 False])
   \<and> \<not> spec_wellformed_hhmm ''12x3400'' \<and> time_accepted ''12x3400''
   \<and> parseHH ''12x3400'' = 12 \<and> parseMM ''12x3400'' = 34"
proof -
  have p1: "time_accepted t \<longleftrightarrow>
      5 \<le> length t
      \<and> 0 \<le> digit_at t 0 * 10 + digit_at t 1 \<and> digit_at t 0 * 10 + digit_at t 1 \<le> 23
      \<and> 0 \<le> digit_at t 3 * 10 + digit_at t 4 \<and> digit_at t 3 * 10 + digit_at t 4 \<le> 59"
    by (auto simp: time_accepted_def parseHH_def parseMM_def)
  have p2: "weekEvents (snd (saveDayFromJson day (Parsed (JArr [time_entry t])) s)) ! nat day
          = [bell (parseHH t) (parseMM t) 5 False]"
    if "time_accepted t \<and> 0 \<le> day \<and> day \<le> 6 \<and> length (weekEvents s) = 7"
  proof -
    from that have "nat day < length (weekEvents s)" by auto
    then show ?thesis
      using that by (simp add: saveDayFromJson_array saveWeekToFS_eq stored_row_single)
  qed
  have p3: "fst (loadWeekFromFS s)
        \<and> weekEvents (snd (loadWeekFromFS s)) ! k = [bell (parseHH t) (parseMM t) 5 False]"
    if h: "time_accepted t \<and> fs_file s = Some (Parsed (week_doc days)) \<and> fs_readable s
        \<and> length days = 7 \<and> k < 7 \<and> days ! k = JArr [time_entry t]"
  proof -
    from h have f: "fs_file s = Some (Parsed (week_doc days))" by simp
    have "map (\<lambda>d. stored_row (as_array (days ! d))) [0..<7] ! k = stored_row (as_array (days ! k))"
      using h by (simp del: upt_Suc)
    then show ?thesis using h
      by (simp add: loadWeekFromFS_present [OF f] week_doc_def stored_row_single del: upt_Suc)
  qed
  have p4: "\<not> spec_wellformed_hhmm ''12x3400''" "time_accepted ''12x3400''"
    "parseHH ''12x3400'' = 12" "parseMM ''12x3400'' = 34"
    by (simp_all add: spec_wellformed_hhmm_def time_accepted_def parseHH_def parseMM_def digit_at_def)
  from p1 p2 p3 p4 parse_positions [of a b c d e rest "CHR '':''"] show ?thesis by blast
qed

theorem loose_time_validation_witness:
  "weekEvents (snd (saveDayFromJson 3 (Parsed (JArr [time_entry ''12x3400''])) boot_state)) ! 3
     = [bell 12 34 5 False]
   \<and> fst (loadWeekFromFS loose_time_file)
   \<and> weekEvents (snd (loadWeekFromFS loose_time_file)) ! 3 = [bell 12 34 5 False]"
proof -
  let ?days = "[JArr [], JArr [], JArr [], JArr [time_entry ''12x3400''], JArr [], JArr [], JArr []]"
  note th = loose_time_validation [where t = "''12x3400''" and day = 3 and s = boot_state and k = 3]
  note th2 = loose_time_validation [where t = "''12x3400''" and s = loose_time_file and k = 3
      and days = ?days]
  have acc: "time_accepted ''12x3400''" using th by blast
  have hh: "parseHH ''12x3400'' = 12" "parseMM ''12x3400'' = 34" using th by blast+
  have h1: "(0::int) \<le> 3 \<and> (3::int) \<le> 6 \<and> length (weekEvents boot_state) = 7"
    by (simp add: boot_state_def)
  have h2: "fs_file loose_time_file = Some (Parsed (week_doc ?days)) \<and> fs_readable loose_time_file
        \<and> length ?days = 7 \<and> (3::nat) < 7 \<and> ?days ! 3 = JArr [time_entry ''12x3400'']"
    by (simp add: loose_time_file_def boot_state_def)
  from th acc h1 have "weekEvents (snd (saveDayFromJson 3 (Parsed (JArr [time_entry ''12x3400''])) boot_state)) ! nat 3
          = [bell (parseHH ''12x3400'') (parseMM ''12x3400'') 5 False]" by blast
  moreover from th2 acc h2 have "fst (loadWeekFromFS loose_time_file)
        \<and> weekEvents (snd (loadWeekFromFS loose_time_file)) ! 3
            = [bell (parseHH ''12x3400'') (parseMM ''12x3400'') 5 False]" by blast
  ultimately show ?thesis by (simp add: hh)
qed

subsection \<open>The table invariant\<close>

text \<open>
  \<open>setup\<close> establishes the invariant of the table, and \<open>loadWeekFromFS\<close>,
  \<open>saveDayFromJson\<close> and \<open>schedulerTick\<close> keep it.
\<close>

lemma valid_tableD:
  "valid_table w \<Longrightarrow> \<forall>d<7. \<forall>e\<in>set (w ! d). valid_time e"
  by (auto simp: valid_table_def)

lemma stored_row_valid_row:
  "length (stored_row objs) \<le> MAX_EVENTS_PER_DAY
   \<and> (\<forall>e\<in>set (stored_row objs). valid_time e \<and> 1 \<le> duration e \<and> duration e < 2 ^ 31)"
  using stored_row_props [where objs = objs] stored_row_duration_int [where objs = objs]
  by (auto simp: MAX_EVENTS_PER_DAY_def)

lemma seed_day_valid_row:
  "length seed_day \<le> MAX_EVENTS_PER_DAY \<and> (\<forall>e\<in>set seed_day. valid_time e \<and> 1 \<le> duration e \<and> duration e < 2 ^ 31)"
  by (simp add: seed_day_def default_times_def MAX_EVENTS_PER_DAY_def valid_time_def
      parseHH_def parseMM_def digit_at_def)

lemma valid_default_week: "valid_table default_week"
  using seed_day_valid_row by (auto simp: valid_table_def default_week_def)

lemma valid_table_update:
  assumes "valid_table w" "length row \<le> MAX_EVENTS_PER_DAY"
    "\<forall>e\<in>set row. valid_time e \<and> 1 \<le> duration e \<and> duration e < 2 ^ 31"
  shows "valid_table (w[d := row])"
proof -
  have sub: "set (w[d := row]) \<subseteq> insert row (set w)" by (rule set_update_subset_insert)
  have "length r \<le> MAX_EVENTS_PER_DAY \<and> (\<forall>e\<in>set r. valid_time e \<and> 1 \<le> duration e \<and> duration e < 2 ^ 31)"
    if "r \<in> set (w[d := row])" for r
  proof -
    from that sub have "r = row \<or> r \<in> set w" by auto
    then show ?thesis using assms by (auto simp: valid_table_def)
  qed
  moreover have "length (w[d := row]) = 7" using assms(1) by (simp add: valid_table_def)
  ultimately show ?thesis unfolding valid_table_def by blast
qed

lemma saveWeekToFS_events: "weekEvents (snd (saveWeekToFS s)) = weekEvents s"
  by (simp add: saveWeekToFS_eq)

lemma saveDayFromJson_valid:
  assumes "valid_table (weekEvents s)"
  shows "valid_table (weekEvents (snd (saveDayFromJson day body s)))"
proof (cases "0 \<le> day \<and> day \<le> 6 \<and> (\<exists>objs. body = Parsed (JArr objs))")
  case True
  then obtain objs where b: "body = Parsed (JArr objs)" and d: "0 \<le> day" "day \<le> 6" by blast
  from valid_table_update [OF assms, of "stored_row objs" "nat day"] stored_row_valid_row [of objs]
  show ?thesis by (simp add: b saveDayFromJson_array [OF d] saveWeekToFS_events)
next
  case False
  have "snd (saveDayFromJson day body s) = s"
  proof (cases body)
    case Garbage
    then show ?thesis by (simp add: saveDayFromJson_def)
  next
    case (Parsed doc)
    show ?thesis
    proof (cases doc)
      case (JArr objs)
      with False Parsed have "day < 0 \<or> day > 6" by auto
      then show ?thesis by (auto simp: saveDayFromJson_def)
    qed (simp_all add: Parsed saveDayFromJson_def)
  qed
  with assms show ?thesis by simp
qed

lemma loadWeekFromFS_valid:
  assumes "valid_table (weekEvents s)"
  shows "valid_table (weekEvents (snd (loadWeekFromFS s)))"
proof (cases "fs_file s")
  case None
  then show ?thesis
    by (simp add: loadWeekFromFS_absent saveWeekToFS_events seed_fields valid_default_week)
next
  case (Some content)
  have rows: "valid_table (map (\<lambda>d. stored_row (f d)) [0..<7])" for f
    using stored_row_valid_row by (auto simp: valid_table_def)
  show ?thesis
    using assms rows by (auto simp: loadWeekFromFS_present [OF Some] split: stored.split)
qed

lemma setup_load_valid: "valid_table (weekEvents (setup_load s))"
proof (cases "fst (loadWeekFromFS s)")
  case True
  have rows: "valid_table (map (\<lambda>d. stored_row (f d)) [0..<7])" for f
    using stored_row_valid_row by (auto simp: valid_table_def)
  show ?thesis
  proof (cases "fs_file s")
    case None
    with True show ?thesis
      by (simp add: setup_load_eq loadWeekFromFS_absent saveWeekToFS_events seed_fields
          valid_default_week)
  next
    case (Some content)
    with True rows show ?thesis
      by (auto simp: setup_load_eq loadWeekFromFS_present [OF Some] split: stored.splits if_splits)
  qed
next
  case False
  then show ?thesis
    by (simp add: setup_load_eq saveWeekToFS_events seed_fields valid_default_week)
qed

lemma valid_row_marked:
  assumes "length row \<le> MAX_EVENTS_PER_DAY \<and> (\<forall>e\<in>set row. valid_time e \<and> 1 \<le> duration e \<and> duration e < 2 ^ 31)"
  shows "length (row[j := (row ! j)\<lparr>firedToday := b\<rparr>]) \<le> MAX_EVENTS_PER_DAY
     \<and> (\<forall>e\<in>set (row[j := (row ! j)\<lparr>firedToday := b\<rparr>]). valid_time e \<and> 1 \<le> duration e \<and> duration e < 2 ^ 31)"
proof (cases "j < length row")
  case True
  let ?x = "(row ! j)\<lparr>firedToday := b\<rparr>"
  from True have "row ! j \<in> set row" by simp
  with assms have x: "valid_time ?x \<and> 1 \<le> duration ?x \<and> duration ?x < 2 ^ 31"
    by (simp add: valid_time_def)
  have sub: "set (row[j := ?x]) \<subseteq> insert ?x (set row)"
    by (rule set_update_subset_insert)
  have "valid_time e \<and> 1 \<le> duration e \<and> duration e < 2 ^ 31" if "e \<in> set (row[j := ?x])" for e
  proof -
    from that sub have "e = ?x \<or> e \<in> set row" by auto
    then show ?thesis using x assms by auto
  qed
  then show ?thesis using assms by simp
next
  case False
  then have "row[j := (row ! j)\<lparr>firedToday := b\<rparr>] = row"
    by (intro list_update_beyond) simp
  then show ?thesis using assms by simp
qed

lemma day_change_valid:
  assumes "valid_table (weekEvents s)"
  shows "valid_table (weekEvents (day_change y s))"
  using assms by (auto simp: day_change_fields valid_table_def valid_time_def)

lemma schedulerTick_valid:
  assumes "valid_table (weekEvents s)"
  shows "valid_table (weekEvents (schedulerTick lt ms_off ms_pulse s))"
proof -
  let ?w = "weekEvents (day_change (tm_yday lt) s)"
  have w: "valid_table ?w" using assms by (rule day_change_valid)
  show ?thesis
  proof (cases "tick_fires lt s")
    case None
    with w show ?thesis by (simp add: schedulerTick_events)
  next
    case (Some p)
    obtain d j where p: "p = (d, j)" by (cases p)
    show ?thesis
    proof (cases "d < length ?w")
      case True
      then have "?w ! d \<in> set ?w" by simp
      with w have "length (?w ! d) \<le> MAX_EVENTS_PER_DAY
          \<and> (\<forall>e\<in>set (?w ! d). valid_time e \<and> 1 \<le> duration e \<and> duration e < 2 ^ 31)"
        by (simp add: valid_table_def)
      from valid_row_marked [OF this, of j True] valid_table_update [OF w, of _ d]
      show ?thesis using Some p by (simp add: schedulerTick_events Let_def)
    next
      case False
      then have "?w[d := (?w ! d)[j := (?w ! d ! j)\<lparr>firedToday := True\<rparr>]] = ?w"
        by (intro list_update_beyond) simp
      with w Some p show ?thesis by (simp add: schedulerTick_events Let_def)
    qed
  qed
qed

subsection \<open>The saved document\<close>

text \<open>
  When everything fits, the loops of \<open>saveWeekToFS\<close> build the document of the whole
  table: every event takes four slots and its time string, unless the pool has that
  string already.
\<close>

lemma alloc_slot_fits:
  "16 \<le> pool_free p \<Longrightarrow> alloc_slot p = Some (p\<lparr>pool_free := pool_free p - 16\<rparr>)"
  by (simp add: alloc_slot_def SLOT_SIZE_def)

lemma set_member_fits:
  "16 \<le> pool_free p \<Longrightarrow> set_member k v (p, ms) = (p\<lparr>pool_free := pool_free p - 16\<rparr>, ms @ [(k, v)])"
  by (simp add: set_member_def alloc_slot_fits)

lemma set_time_known:
  "16 \<le> pool_free p \<Longrightarrow> t \<in> set (pool_strings p) \<Longrightarrow>
   set_time t (p, ms) = (p\<lparr>pool_free := pool_free p - 16\<rparr>, ms @ [(''time'', JStr t)])"
  by (simp add: set_time_def alloc_slot_fits copy_string_def)

lemma set_time_new:
  "16 + (length t + 1) \<le> pool_free p \<Longrightarrow> t \<notin> set (pool_strings p) \<Longrightarrow>
   set_time t (p, ms) = (p\<lparr>pool_free := pool_free p - (16 + (length t + 1)), pool_strings := pool_strings p @ [t]\<rparr>,
                         ms @ [(''time'', JStr t)])"
  by (simp add: set_time_def alloc_slot_fits copy_string_def)

lemma add_event_known:
  assumes "time_str e \<in> set (pool_strings p)" "64 \<le> pool_free p"
  shows "add_event e p = (p\<lparr>pool_free := pool_free p - 64\<rparr>, Some (event_json e))"
  using assms
  by (simp add: add_event_def alloc_slot_fits set_time_known set_member_fits event_json_def)

lemma add_event_new:
  assumes "time_str e \<notin> set (pool_strings p)" "64 + (length (time_str e) + 1) \<le> pool_free p"
  shows "add_event e p =
           (p\<lparr>pool_free := pool_free p - (64 + (length (time_str e) + 1)),
              pool_strings := pool_strings p @ [time_str e]\<rparr>, Some (event_json e))"
  using assms
  by (simp add: add_event_def alloc_slot_fits set_time_new set_member_fits event_json_def)

lemma add_event_fits:
  assumes "64 + (if time_str e \<in> set (pool_strings p) then 0 else length (time_str e) + 1) \<le> pool_free p"
  shows "\<exists>p'. add_event e p = (p', Some (event_json e))
           \<and> pool_free p' + (64 + (if time_str e \<in> set (pool_strings p) then 0 else length (time_str e) + 1)) = pool_free p
           \<and> set (pool_strings p') = insert (time_str e) (set (pool_strings p))"
proof (cases "time_str e \<in> set (pool_strings p)")
  case True
  with assms have "64 \<le> pool_free p" by simp
  from add_event_known [OF True this] True this show ?thesis by auto
next
  case False
  with assms have "64 + (length (time_str e) + 1) \<le> pool_free p" by simp
  from add_event_new [OF False this] False this show ?thesis by auto
qed

lemma str_sum_insert:
  fixes f :: "string \<Rightarrow> nat"
  assumes "finite T"
  shows "sum f (insert t T - S) = (if t \<in> S then 0 else f t) + sum f (T - insert t S)"
proof (cases "t \<in> S")
  case True
  then have "insert t T - S = T - insert t S" by blast
  then have "sum f (insert t T - S) = sum f (T - insert t S)" by (rule arg_cong)
  with True show ?thesis by (simp only: if_True add_0)
next
  case False
  then have e: "insert t T - S = insert t (T - insert t S)" by blast
  have n: "t \<notin> T - insert t S" by blast
  have fin: "finite (T - insert t S)" using assms by (rule finite_Diff)
  have "sum f (insert t (T - insert t S)) = f t + sum f (T - insert t S)"
    using fin n by (rule sum.insert)
  with e False show ?thesis by (simp only: if_False)
qed

lemma str_sum_union:
  fixes f :: "string \<Rightarrow> nat"
  assumes "finite A" "finite B"
  shows "sum f ((A \<union> B) - S) = sum f (A - S) + sum f (B - (S \<union> A))"
proof -
  have e: "(A \<union> B) - S = (A - S) \<union> (B - (S \<union> A))" by blast
  have d: "(A - S) \<inter> (B - (S \<union> A)) = {}" by blast
  have fa: "finite (A - S)" using assms(1) by (rule finite_Diff)
  have fb: "finite (B - (S \<union> A))" using assms(2) by (rule finite_Diff)
  from sum.union_disjoint [OF fa fb d] e show ?thesis by (simp only:)
qed

lemma add_events_fits:
  assumes "64 * length es + (\<Sum>t \<in> time_str ` set es - set (pool_strings p). length t + 1) \<le> pool_free p"
  shows "\<exists>p'. add_events es p acc = (p', acc @ map event_json es)
           \<and> pool_free p' + (64 * length es + (\<Sum>t \<in> time_str ` set es - set (pool_strings p). length t + 1)) = pool_free p
           \<and> set (pool_strings p') = set (pool_strings p) \<union> time_str ` set es"
  using assms
proof (induction es arbitrary: p acc)
  case Nil
  then show ?case by simp
next
  case (Cons e es)
  let ?f = "\<lambda>t :: string. length t + 1"
  let ?S = "set (pool_strings p)"
  let ?T = "time_str ` set es"
  let ?c = "if time_str e \<in> ?S then 0 else ?f (time_str e)"
  have split: "sum ?f (time_str ` set (e # es) - ?S) = ?c + sum ?f (?T - insert (time_str e) ?S)"
    using str_sum_insert [of ?T ?f "time_str e" ?S] by simp
  have "64 + ?c \<le> pool_free p" using Cons.prems split by simp
  from add_event_fits [OF this] obtain p1 where
    p1: "add_event e p = (p1, Some (event_json e))"
        "pool_free p1 + (64 + ?c) = pool_free p"
        "set (pool_strings p1) = insert (time_str e) ?S" by blast
  have "64 * length es + sum ?f (?T - set (pool_strings p1)) \<le> pool_free p1"
    using Cons.prems split p1(2) p1(3) by simp
  from Cons.IH [OF this, of "acc @ [event_json e]"] obtain p' where
    p': "add_events es p1 (acc @ [event_json e]) = (p', (acc @ [event_json e]) @ map event_json es)"
        "pool_free p' + (64 * length es + sum ?f (?T - set (pool_strings p1))) = pool_free p1"
        "set (pool_strings p') = set (pool_strings p1) \<union> ?T" by blast
  have "add_events (e # es) p acc = (p', acc @ map event_json (e # es))"
    using p1(1) p'(1) by simp
  moreover have "pool_free p' + (64 * length (e # es) + sum ?f (time_str ` set (e # es) - ?S)) = pool_free p"
    using p'(2) p1(2) p1(3) split by simp
  moreover have "set (pool_strings p') = ?S \<union> time_str ` set (e # es)"
    using p'(3) p1(3) by auto
  ultimately show ?case by blast
qed

lemma add_days_fits:
  assumes "(\<Sum>row\<leftarrow>rows. 16 + 64 * length row)
            + (\<Sum>t \<in> time_str ` (\<Union>row \<in> set rows. set row) - set (pool_strings p). length t + 1) \<le> pool_free p"
  shows "snd (add_days rows p acc) = acc @ map (\<lambda>row. JArr (map event_json row)) rows"
  using assms
proof (induction rows arbitrary: p acc)
  case Nil
  then show ?case by simp
next
  case (Cons row rows)
  let ?f = "\<lambda>t :: string. length t + 1"
  let ?S = "set (pool_strings p)"
  let ?A = "time_str ` set row"
  let ?B = "time_str ` (\<Union>row \<in> set rows. set row)"
  let ?n = "\<Sum>row\<leftarrow>rows. 16 + 64 * length row"
  have u: "time_str ` (\<Union>r \<in> set (row # rows). set r) = ?A \<union> ?B" by auto
  have split: "sum ?f (time_str ` (\<Union>r \<in> set (row # rows). set r) - ?S)
                 = sum ?f (?A - ?S) + sum ?f (?B - (?S \<union> ?A))"
    unfolding u by (rule str_sum_union) simp_all
  have need: "16 + 64 * length row + ?n + (sum ?f (?A - ?S) + sum ?f (?B - (?S \<union> ?A))) \<le> pool_free p"
    using Cons.prems unfolding split by simp
  then have s16: "16 \<le> pool_free p" by simp
  let ?p1 = "p\<lparr>pool_free := pool_free p - 16\<rparr>"
  have a1: "alloc_slot p = Some ?p1" using s16 by (rule alloc_slot_fits)
  have "64 * length row + sum ?f (?A - set (pool_strings ?p1)) \<le> pool_free ?p1"
    using need by simp
  from add_events_fits [OF this, of "[]"] obtain p2 where
    p2: "add_events row ?p1 [] = (p2, [] @ map event_json row)"
        "pool_free p2 + (64 * length row + sum ?f (?A - set (pool_strings ?p1))) = pool_free ?p1"
        "set (pool_strings p2) = set (pool_strings ?p1) \<union> ?A" by blast
  have "?n + sum ?f (?B - set (pool_strings p2)) \<le> pool_free p2"
    using need p2(2) p2(3) by simp
  from Cons.IH [OF this, of "acc @ [JArr (map event_json row)]"]
  show ?case using a1 p2(1) by simp
qed

lemma week_json_rows:
  "week_json w = JObj [(''days'', JArr (map (\<lambda>row. JArr (map event_json row)) (map (\<lambda>d. w ! d) [0..<7])))]"
  by (simp add: week_json_def)

lemma build_week_doc_fits:
  assumes "16 + (\<Sum>row\<leftarrow>map (\<lambda>d. w ! d) [0..<7]. 16 + 64 * length row)
            + (\<Sum>t \<in> time_str ` (\<Union>row \<in> set (map (\<lambda>d. w ! d) [0..<7]). set row). length t + 1) \<le> DOC_CAPACITY"
  shows "build_week_doc w = week_json w"
proof -
  let ?init = "\<lparr>pool_free = DOC_CAPACITY, pool_strings = []\<rparr>"
  let ?p = "?init\<lparr>pool_free := pool_free ?init - 16\<rparr>"
  let ?rows = "map (\<lambda>d. w ! d) [0..<7]"
  have a: "alloc_slot ?init = Some ?p" by (rule alloc_slot_fits) (simp add: DOC_CAPACITY_def)
  have "(\<Sum>row\<leftarrow>?rows. 16 + 64 * length row)
          + (\<Sum>t \<in> time_str ` (\<Union>row \<in> set ?rows. set row) - set (pool_strings ?p). length t + 1)
        \<le> pool_free ?p"
    using assms by simp
  from add_days_fits [OF this, of "[]"]
  show ?thesis unfolding build_week_doc_def week_json_rows a by simp
qed

text \<open>What a document needs when it is read back, and that the default table fits.\<close>

lemma doc_slots_JArr:
  "doc_slots (JArr []) = 0"
  "doc_slots (JArr (x # xs)) = SLOT_SIZE + doc_slots x + doc_slots (JArr xs)"
  by simp_all

lemma doc_strings_JArr:
  "doc_strings (JArr []) = []"
  "doc_strings (JArr (x # xs)) = doc_strings x @ doc_strings (JArr xs)"
  by simp_all

lemma doc_slots_event: "doc_slots (event_json e) = 48"
  by (simp add: event_json_def SLOT_SIZE_def)

lemma doc_slots_row: "doc_slots (JArr (map event_json row)) = 64 * length row"
  by (induction row) (simp_all add: doc_slots_event SLOT_SIZE_def)

lemma doc_slots_rows:
  "doc_slots (JArr (map (\<lambda>row. JArr (map event_json row)) rows)) = (\<Sum>row\<leftarrow>rows. 16 + 64 * length row)"
  by (induction rows) (simp_all add: doc_slots_JArr doc_slots_row SLOT_SIZE_def del: doc_slots.simps(1))

lemma doc_slots_week:
  "doc_slots (week_json w) = 16 + (\<Sum>row\<leftarrow>map (\<lambda>d. w ! d) [0..<7]. 16 + 64 * length row)"
  unfolding week_json_rows using doc_slots_rows [of "map (\<lambda>d. w ! d) [0..<7]"]
  by (simp add: SLOT_SIZE_def del: doc_slots.simps(1))

lemma doc_strings_event:
  "doc_strings (event_json e) = [''time'', time_str e, ''duration'', ''enabled'']"
  by (simp add: event_json_def)

lemma doc_strings_row:
  "set (doc_strings (JArr (map event_json row)))
     = (if row = [] then {} else {''time'', ''duration'', ''enabled''}) \<union> time_str ` set row"
  by (induction row) (auto simp: doc_strings_event)

lemma doc_strings_rows:
  "set (doc_strings (JArr (map (\<lambda>row. JArr (map event_json row)) rows)))
     = (\<Union>row \<in> set rows. (if row = [] then {} else {''time'', ''duration'', ''enabled''}) \<union> time_str ` set row)"
  by (induction rows) (simp_all add: doc_strings_JArr doc_strings_row del: doc_strings.simps(2))

lemma doc_strings_week:
  "set (doc_strings (week_json w))
     = insert ''days'' (\<Union>row \<in> set (map (\<lambda>d. w ! d) [0..<7]).
          (if row = [] then {} else {''time'', ''duration'', ''enabled''}) \<union> time_str ` set row)"
  unfolding week_json_rows using doc_strings_rows [of "map (\<lambda>d. w ! d) [0..<7]"]
  by (simp del: doc_strings.simps(2))

lemma parse_bytes_sum:
  "parse_bytes doc = doc_slots doc + (\<Sum>t \<in> set (doc_strings doc). length t + 1)"
  by (simp add: parse_bytes_def sum_list_distinct_conv_sum_set)

lemma build_week_doc_complete:
  assumes "parse_bytes (week_json w) \<le> DOC_CAPACITY"
  shows "build_week_doc w = week_json w"
proof (rule build_week_doc_fits)
  let ?rows = "map (\<lambda>d. w ! d) [0..<7]"
  let ?f = "\<lambda>t :: string. length t + 1"
  have "time_str ` (\<Union>row \<in> set ?rows. set row) \<subseteq> set (doc_strings (week_json w))"
    unfolding doc_strings_week by blast
  then have "sum ?f (time_str ` (\<Union>row \<in> set ?rows. set row)) \<le> sum ?f (set (doc_strings (week_json w)))"
    by (intro sum_mono2) simp_all
  with assms show "16 + (\<Sum>row\<leftarrow>?rows. 16 + 64 * length row)
      + sum ?f (time_str ` (\<Union>row \<in> set ?rows. set row)) \<le> DOC_CAPACITY"
    unfolding parse_bytes_sum doc_slots_week by linarith
qed

lemma sum_set_le_sum_list:
  fixes f :: "'a \<Rightarrow> nat"
  shows "sum f (set xs) \<le> sum_list (map f xs)"
proof (induction xs)
  case Nil
  then show ?case by simp
next
  case (Cons x xs)
  have "sum f (set (x # xs)) \<le> f x + sum f (set xs)"
    by (simp add: sum.insert_if)
  with Cons show ?case by simp
qed

lemma char_of_digits:
  "char_of (48 :: nat) = CHR ''0''" "char_of (49 :: nat) = CHR ''1''" "char_of (50 :: nat) = CHR ''2''"
  "char_of (51 :: nat) = CHR ''3''" "char_of (52 :: nat) = CHR ''4''" "char_of (53 :: nat) = CHR ''5''"
  "char_of (54 :: nat) = CHR ''6''" "char_of (55 :: nat) = CHR ''7''" "char_of (56 :: nat) = CHR ''8''"
  "char_of (57 :: nat) = CHR ''9''"
  by (simp_all add: char_of_def bit_Suc bit_0)

lemma seed_day_times: "map time_str seed_day = default_times"
  by (simp add: seed_day_def default_times_def MAX_EVENTS_PER_DAY_def time_str_def fmt_02d_def
      parseHH_def parseMM_def digit_at_def char_of_digits)

lemma default_week_fits: "parse_bytes (week_json default_week) \<le> DOC_CAPACITY"
proof -
  let ?f = "\<lambda>t :: string. length t + 1"
  have rows: "map (\<lambda>d. default_week ! d) [0..<7] = replicate 7 seed_day"
    by (simp add: default_week_def upt_rec numeral_nat)
  have slots: "doc_slots (week_json default_week) = 11776"
    unfolding doc_slots_week rows by (simp add: seed_day_length sum_list_replicate)
  have "set (doc_strings (week_json default_week))
          \<subseteq> set (''days'' # ''time'' # ''duration'' # ''enabled'' # map time_str seed_day)"
    unfolding doc_strings_week rows by auto
  then have "sum ?f (set (doc_strings (week_json default_week)))
          \<le> sum ?f (set (''days'' # ''time'' # ''duration'' # ''enabled'' # default_times))"
    unfolding seed_day_times by (intro sum_mono2) simp_all
  also have "\<dots> \<le> sum_list (map ?f (''days'' # ''time'' # ''duration'' # ''enabled'' # default_times))"
    by (rule sum_set_le_sum_list)
  also have "\<dots> = 183" by (simp add: default_times_def)
  finally show ?thesis unfolding parse_bytes_sum slots by (simp add: DOC_CAPACITY_def)
qed

text \<open>
  The document of a valid table loads back as that table, the fired marks cleared:
  the time string of an entry decodes to its hour and minute.
\<close>

lemma fmt_02d_digits:
  assumes "n < 100"
  shows "fmt_02d (int n) = [char_of (48 + n div 10), char_of (48 + n mod 10)]"
proof (cases "n < 10")
  case True
  have "dec n = [char_of (48 + n)]" using True by (subst dec.simps) simp
  then show ?thesis using True by (simp add: fmt_02d_def char_of_digits)
next
  case False
  have d: "n div 10 < 10" using assms by simp
  have "dec (n div 10) = [char_of (48 + n div 10)]" using d by (subst dec.simps) simp
  moreover have "dec n = dec (n div 10) @ [char_of (48 + n mod 10)]"
    using False by (subst dec.simps) simp
  ultimately show ?thesis using False by (simp add: fmt_02d_def)
qed

lemma time_str_valid:
  assumes "valid_time e"
  shows "time_str e = [char_of (48 + nat (hh e) div 10), char_of (48 + nat (hh e) mod 10), CHR '':'',
                        char_of (48 + nat (mm e) div 10), char_of (48 + nat (mm e) mod 10)]"
proof -
  have h: "nat (hh e) < 100" "int (nat (hh e)) = hh e" using assms unfolding valid_time_def by linarith+
  have m: "nat (mm e) < 100" "int (nat (mm e)) = mm e" using assms unfolding valid_time_def by linarith+
  from fmt_02d_digits [OF h(1)] fmt_02d_digits [OF m(1)] show ?thesis
    unfolding h(2) m(2) by (simp add: time_str_def)
qed

lemma digit_char: "k < 10 \<Longrightarrow> int (of_char (char_of (48 + k :: nat)) :: nat) - 48 = int k"
  by simp

lemma two_digits: "int (n div 10) * 10 + int (n mod 10) = int n"
  by (simp add: zdiv_int zmod_int)

lemma time_str_parse:
  assumes "valid_time e"
  shows "length (time_str e) = 5" "parseHH (time_str e) = hh e" "parseMM (time_str e) = mm e"
proof -
  have h: "0 \<le> hh e" and m: "0 \<le> mm e" using assms by (simp_all add: valid_time_def)
  have d: "nat (hh e) div 10 < 10" "nat (hh e) mod 10 < 10" "nat (mm e) div 10 < 10" "nat (mm e) mod 10 < 10"
    using assms unfolding valid_time_def by linarith+
  show "length (time_str e) = 5" by (simp add: time_str_valid [OF assms])
  have "parseHH (time_str e) = int (nat (hh e) div 10) * 10 + int (nat (hh e) mod 10)"
    unfolding time_str_valid [OF assms] parseHH_def digit_at_def
    using digit_char [OF d(1)] digit_char [OF d(2)] by simp
  also have "\<dots> = int (nat (hh e))" by (rule two_digits)
  finally show "parseHH (time_str e) = hh e" using h by simp
  have "parseMM (time_str e) = int (nat (mm e) div 10) * 10 + int (nat (mm e) mod 10)"
    unfolding time_str_valid [OF assms] parseMM_def digit_at_def
    using digit_char [OF d(3)] digit_char [OF d(4)] by simp
  also have "\<dots> = int (nat (mm e))" by (rule two_digits)
  finally show "parseMM (time_str e) = mm e" using m by simp
qed

lemma event_json_members:
  "member (event_json e) ''time'' = JStr (time_str e)"
  "member (event_json e) ''duration'' = JInt (duration e)"
  "member (event_json e) ''enabled'' = JBool (enabled e)"
  by (simp_all add: event_json_def)

lemma event_json_back:
  assumes "valid_time e" "1 \<le> duration e" "duration e < 2 ^ 31"
  shows "time_accepted (entry_time (event_json e))"
    and "entry_event (event_json e) = e\<lparr>firedToday := False\<rparr>"
proof -
  have t: "entry_time (event_json e) = time_str e"
    by (simp add: entry_time_def event_json_members)
  show "time_accepted (entry_time (event_json e))"
    unfolding t time_accepted_def using time_str_parse [OF assms(1)] assms(1)
    by (simp add: valid_time_def)
  show "entry_event (event_json e) = e\<lparr>firedToday := False\<rparr>"
    unfolding entry_event_def t using time_str_parse [OF assms(1)] assms(2) assms(3)
    by (simp add: event_json_members)
qed

lemma stored_row_back:
  assumes "length row \<le> MAX_EVENTS_PER_DAY"
    "\<forall>e\<in>set row. valid_time e \<and> 1 \<le> duration e \<and> duration e < 2 ^ 31"
  shows "stored_row (map event_json row) = map (\<lambda>e. e\<lparr>firedToday := False\<rparr>) row"
proof -
  have "filter (\<lambda>obj. time_accepted (entry_time obj)) (map event_json row) = map event_json row"
    using assms(2) event_json_back(1) by (intro filter_True) auto
  moreover have "map entry_event (map event_json row) = map (\<lambda>e. e\<lparr>firedToday := False\<rparr>) row"
    using assms(2) event_json_back(2) by simp
  ultimately show ?thesis using assms(1) by (simp add: stored_row_def)
qed

lemma week_json_back:
  assumes "valid_table w" "fs_file s = Some (Parsed (week_json w))" "fs_readable s"
  shows "loadWeekFromFS s = (True, s\<lparr>weekEvents := map (map (\<lambda>e. e\<lparr>firedToday := False\<rparr>)) w\<rparr>)"
proof -
  have len: "length w = 7" using assms(1) by (simp add: valid_table_def)
  have days: "member (week_json w) ''days'' = JArr (map (\<lambda>d. JArr (map event_json (w ! d))) [0..<7])"
    by (simp add: week_json_def)
  have row: "stored_row (as_array (as_array (member (week_json w) ''days'') ! d))
               = map (\<lambda>e. e\<lparr>firedToday := False\<rparr>) (w ! d)" if "d < 7" for d
  proof -
    have "w ! d \<in> set w" using that len by simp
    with assms(1) have "length (w ! d) \<le> MAX_EVENTS_PER_DAY"
      "\<forall>e\<in>set (w ! d). valid_time e \<and> 1 \<le> duration e \<and> duration e < 2 ^ 31"
      by (simp_all add: valid_table_def)
    from stored_row_back [OF this] that show ?thesis unfolding days by simp
  qed
  have "map (\<lambda>d. stored_row (as_array (as_array (member (week_json w) ''days'') ! d))) [0..<7]
          = map (\<lambda>d. map (\<lambda>e. e\<lparr>firedToday := False\<rparr>) (w ! d)) [0..<7]"
    using row by simp
  also have "\<dots> = map (map (\<lambda>e. e\<lparr>firedToday := False\<rparr>)) (map (\<lambda>d. w ! d) [0..<length w])"
    unfolding len by simp
  also have "\<dots> = map (map (\<lambda>e. e\<lparr>firedToday := False\<rparr>)) w"
    unfolding map_nth ..
  finally have rows: "map (\<lambda>d. stored_row (as_array (as_array (member (week_json w) ''days'') ! d))) [0..<7]
          = map (map (\<lambda>e. e\<lparr>firedToday := False\<rparr>)) w" .
  have "loadWeekFromFS s
          = (True, s\<lparr>weekEvents :=
               map (\<lambda>d. stored_row (as_array (as_array (member (week_json w) ''days'') ! d))) [0..<7]\<rparr>)"
    unfolding loadWeekFromFS_present [OF assms(2)] using assms(3) by (simp add: days)
  then show ?thesis unfolding rows .
qed









lemma read_back_fits: "parse_bytes doc \<le> DOC_CAPACITY \<Longrightarrow> read_back doc = Parsed doc"
  by (simp add: read_back_def)





lemma seed_day_unfired: "map (\<lambda>e. e\<lparr>firedToday := False\<rparr>) seed_day = seed_day"
proof (rule map_idI)
  fix x assume "x \<in> set seed_day"
  then have "x \<in> set (map (\<lambda>t. \<lparr>hh = parseHH t, mm = parseMM t, duration = 5, enabled = True,
                                  firedToday = False\<rparr>) default_times)"
    unfolding seed_day_def by (rule in_set_takeD)
  then obtain t where "x = \<lparr>hh = parseHH t, mm = parseMM t, duration = 5, enabled = True,
                              firedToday = False\<rparr>" by auto
  then show "x\<lparr>firedToday := False\<rparr> = x" by simp
qed

lemma seed_files:
  "fs_readable (seedDefaultWeek s) = fs_readable s"
  "fs_file (seedDefaultWeek s) = fs_file s"
  by (simp_all add: seedDefaultWeek_def)

lemma default_week_unfired:
  "map (map (\<lambda>e. e\<lparr>firedToday := False\<rparr>)) default_week = default_week"
  by (simp add: default_week_def seed_day_unfired)

lemma week_json_default:
  "week_json default_week = JObj [(''days'', JArr (replicate 7 (JArr (map event_json seed_day))))]"
  by (simp add: week_json_def default_week_def upt_rec numeral_nat)

lemma seed_day_entries:
  "map duration seed_day = replicate 26 5"
  "map enabled seed_day = replicate 26 True"
  "map firedToday seed_day = replicate 26 False"
  by (simp_all add: seed_day_def default_times_def MAX_EVENTS_PER_DAY_def numeral_nat)




text \<open>
  C3, as the code has it. With the file present, \<open>loadWeekFromFS\<close> fails, leaving the
  state as it was, when the file cannot be opened for reading, when it does not
  parse, when \<open>days\<close> is no array and when \<open>days\<close> has not exactly seven elements.
  With seven day lists it succeeds whatever the time fields are: each row is
  \<open>stored_row\<close> of its list, so an element whose time string does not pass the
  code's test is skipped and the load goes on. Whenever the load fails, \<open>setup\<close>
  leaves the default table of seven rows of 26 entries in memory. When the file opens
  for writing, it writes the document of that table to the file, once; the document
  fits the pool, so it is complete, and loading the file afterwards gives the default
  table again. When the file does not open for writing, the file stays as it was.
  The default document holds seven arrays of the 26 entries: the default times in
  order, each with duration 5, enabled and not marked fired. When the load succeeds,
  \<open>setup\<close> keeps its result.
\<close>

theorem load_failure_recovers:
  shows "(fs_file s = Some content
          \<and> (\<not> fs_readable s \<or> content = Garbage
              \<or> (\<exists>doc. content = Parsed doc
                    \<and> (\<not> is_array (member doc ''days'')
                        \<or> length (as_array (member doc ''days'')) \<noteq> 7)))
          \<longrightarrow> loadWeekFromFS s = (False, s))
     \<and> (fs_file s = Some (Parsed doc) \<and> fs_readable s \<and> is_array (member doc ''days'')
          \<and> length (as_array (member doc ''days'')) = 7
          \<longrightarrow> loadWeekFromFS s =
                (True, s\<lparr>weekEvents :=
                   map (\<lambda>d. stored_row (as_array (as_array (member doc ''days'') ! d))) [0..<7]\<rparr>))
     \<and> (fst (loadWeekFromFS s) = False \<longrightarrow>
            weekEvents (setup_load s) = default_week
          \<and> (fs_writable s \<longrightarrow>
                fs_file (setup_load s) = Some (Parsed (week_json default_week))
              \<and> fs_writes (setup_load s) = fs_writes s @ [week_json default_week]
              \<and> (fs_readable s \<longrightarrow> loadWeekFromFS (setup_load s) = (True, setup_load s)))
          \<and> (\<not> fs_writable s \<longrightarrow>
                fs_file (setup_load s) = fs_file s \<and> fs_writes (setup_load s) = fs_writes s))
     \<and> (fst (loadWeekFromFS s) = True \<longrightarrow> setup_load s = snd (loadWeekFromFS s))
     \<and> build_week_doc default_week = week_json default_week
     \<and> read_back (week_json default_week) = Parsed (week_json default_week)
     \<and> week_json default_week = JObj [(''days'', JArr (replicate 7 (JArr (map event_json seed_day))))]
     \<and> map time_str seed_day = default_times
     \<and> map duration seed_day = replicate 26 5
     \<and> map enabled seed_day = replicate 26 True
     \<and> map firedToday seed_day = replicate 26 False
     \<and> length default_week = 7 \<and> (\<forall>row\<in>set default_week. row = seed_day \<and> length row = 26)"
proof -
  have a: "loadWeekFromFS s = (False, s)"
    if "fs_file s = Some content
          \<and> (\<not> fs_readable s \<or> content = Garbage
              \<or> (\<exists>doc. content = Parsed doc
                    \<and> (\<not> is_array (member doc ''days'')
                        \<or> length (as_array (member doc ''days'')) \<noteq> 7)))"
    using that by (auto simp: loadWeekFromFS_present)
  have b: "loadWeekFromFS s =
                (True, s\<lparr>weekEvents :=
                   map (\<lambda>d. stored_row (as_array (as_array (member doc ''days'') ! d))) [0..<7]\<rparr>)"
    if "fs_file s = Some (Parsed doc) \<and> fs_readable s \<and> is_array (member doc ''days'')
          \<and> length (as_array (member doc ''days'')) = 7"
    using that by (simp add: loadWeekFromFS_present)
  have bw: "build_week_doc default_week = week_json default_week"
    using default_week_fits by (rule build_week_doc_complete)
  have rb: "read_back (week_json default_week) = Parsed (week_json default_week)"
    using default_week_fits by (rule read_back_fits)
  have c: "weekEvents (setup_load s) = default_week
          \<and> (fs_writable s \<longrightarrow>
                fs_file (setup_load s) = Some (Parsed (week_json default_week))
              \<and> fs_writes (setup_load s) = fs_writes s @ [week_json default_week]
              \<and> (fs_readable s \<longrightarrow> loadWeekFromFS (setup_load s) = (True, setup_load s)))
          \<and> (\<not> fs_writable s \<longrightarrow>
                fs_file (setup_load s) = fs_file s \<and> fs_writes (setup_load s) = fs_writes s)"
    if failed: "fst (loadWeekFromFS s) = False"
  proof -
    from load_failed_cases [OF failed]
    have w: "fs_writable (snd (loadWeekFromFS s)) = fs_writable s"
      "fs_writes (snd (loadWeekFromFS s)) = fs_writes s"
      "fs_readable (snd (loadWeekFromFS s)) = fs_readable s"
      "fs_file (snd (loadWeekFromFS s)) = fs_file s"
      by (auto simp: seed_fields seed_files)
    have sl: "setup_load s = snd (saveWeekToFS (seedDefaultWeek (snd (loadWeekFromFS s))))"
      using failed by (simp add: setup_load_eq)
    have c1: "weekEvents (setup_load s) = default_week"
      unfolding sl by (simp add: saveWeekToFS_events seed_fields)
    have c2: "fs_file (setup_load s) = Some (Parsed (week_json default_week))
              \<and> fs_writes (setup_load s) = fs_writes s @ [week_json default_week]
              \<and> fs_readable (setup_load s) = fs_readable s" if "fs_writable s"
      unfolding sl using that w
      by (simp add: saveWeekToFS_eq seed_fields seed_files bw rb)
    have c3: "loadWeekFromFS (setup_load s) = (True, setup_load s)"
      if wr: "fs_writable s" and rd: "fs_readable s"
    proof -
      from c2 [OF wr] rd have "fs_file (setup_load s) = Some (Parsed (week_json default_week))"
        "fs_readable (setup_load s)" by simp_all
      from week_json_back [OF valid_default_week this]
      have "loadWeekFromFS (setup_load s) = (True, (setup_load s)\<lparr>weekEvents := default_week\<rparr>)"
        unfolding default_week_unfired .
      moreover have "(setup_load s)\<lparr>weekEvents := default_week\<rparr> = setup_load s"
        using c1 by simp
      ultimately show ?thesis by simp
    qed
    have c4: "fs_file (setup_load s) = fs_file s \<and> fs_writes (setup_load s) = fs_writes s"
      if "\<not> fs_writable s"
      unfolding sl using that w by (simp add: saveWeekToFS_eq seed_fields seed_files)
    from c1 c2 c3 c4 show ?thesis by blast
  qed
  have d: "setup_load s = snd (loadWeekFromFS s)" if "fst (loadWeekFromFS s) = True"
    using that by (simp add: setup_load_eq)
  have e1: "length default_week = 7"
    and e2: "\<forall>row\<in>set default_week. row = seed_day \<and> length row = 26"
    by (auto simp: default_week_def seed_day_length)
  from a have A: "fs_file s = Some content
          \<and> (\<not> fs_readable s \<or> content = Garbage
              \<or> (\<exists>doc. content = Parsed doc
                    \<and> (\<not> is_array (member doc ''days'')
                        \<or> length (as_array (member doc ''days'')) \<noteq> 7)))
          \<longrightarrow> loadWeekFromFS s = (False, s)" by (rule impI)
  from b have B: "fs_file s = Some (Parsed doc) \<and> fs_readable s \<and> is_array (member doc ''days'')
          \<and> length (as_array (member doc ''days'')) = 7
          \<longrightarrow> loadWeekFromFS s =
                (True, s\<lparr>weekEvents :=
                   map (\<lambda>d. stored_row (as_array (as_array (member doc ''days'') ! d))) [0..<7]\<rparr>)"
    by (rule impI)
  from c have C: "fst (loadWeekFromFS s) = False \<longrightarrow>
            weekEvents (setup_load s) = default_week
          \<and> (fs_writable s \<longrightarrow>
                fs_file (setup_load s) = Some (Parsed (week_json default_week))
              \<and> fs_writes (setup_load s) = fs_writes s @ [week_json default_week]
              \<and> (fs_readable s \<longrightarrow> loadWeekFromFS (setup_load s) = (True, setup_load s)))
          \<and> (\<not> fs_writable s \<longrightarrow>
                fs_file (setup_load s) = fs_file s \<and> fs_writes (setup_load s) = fs_writes s)"
    by (rule impI)
  from d have D: "fst (loadWeekFromFS s) = True \<longrightarrow> setup_load s = snd (loadWeekFromFS s)"
    by (rule impI)
  show ?thesis
    by (intro conjI A B C D bw rb week_json_default seed_day_times seed_day_entries e1 e2)
qed

theorem load_failure_recovers_witness:
  "loadWeekFromFS five_day_file = (False, five_day_file)
   \<and> weekEvents (setup_load five_day_file) = default_week
   \<and> fs_file (setup_load five_day_file)
       = Some (Parsed (JObj [(''days'', JArr (replicate 7 (JArr (map event_json seed_day))))]))
   \<and> fs_writes (setup_load five_day_file)
       = [JObj [(''days'', JArr (replicate 7 (JArr (map event_json seed_day))))]]
   \<and> loadWeekFromFS (setup_load five_day_file) = (True, setup_load five_day_file)
   \<and> map time_str seed_day = default_times
   \<and> map duration seed_day = replicate 26 5
   \<and> map enabled seed_day = replicate 26 True"
proof -
  let ?doc = "week_doc [JArr [time_entry ''08:00''], JArr [], JArr [], JArr [], JArr []]"
  have f: "fs_file five_day_file = Some (Parsed ?doc)" "fs_writable five_day_file"
    "fs_readable five_day_file"
    and n: "length (as_array (member ?doc ''days'')) \<noteq> 7"
    by (simp_all add: five_day_file_def boot_state_def week_doc_def)
  note th = load_failure_recovers [of five_day_file "Parsed ?doc" ?doc]
  from th f(1) n have l: "loadWeekFromFS five_day_file = (False, five_day_file)" by blast
  then have "fst (loadWeekFromFS five_day_file) = False" by simp
  with th f(2) f(3) have "weekEvents (setup_load five_day_file) = default_week
     \<and> fs_file (setup_load five_day_file) = Some (Parsed (week_json default_week))
     \<and> fs_writes (setup_load five_day_file) = fs_writes five_day_file @ [week_json default_week]
     \<and> loadWeekFromFS (setup_load five_day_file) = (True, setup_load five_day_file)"
    by blast
  moreover from th have
    "week_json default_week = JObj [(''days'', JArr (replicate 7 (JArr (map event_json seed_day))))]"
    "map time_str seed_day = default_times"
    "map duration seed_day = replicate 26 5"
    "map enabled seed_day = replicate 26 True"
    by blast+
  moreover have "fs_writes five_day_file = []" by (simp add: five_day_file_def boot_state_def)
  ultimately show ?thesis using l by simp
qed

text \<open>
  C3 as stated fails. The file holds seven day lists and Monday's first element has
  the time \<open>bad\<close>. The load does not fail: it returns true, skips that element and
  keeps the 08:00 element after it.
\<close>

theorem load_skips_bad_time_counterexample:
  "\<not> spec_wellformed_hhmm ''bad''
   \<and> loadWeekFromFS bad_time_file =
      (True, bad_time_file\<lparr>weekEvents := [[bell 8 0 5 False], [], [], [], [], [], []]\<rparr>)"
  by (simp add: spec_wellformed_hhmm_def loadWeekFromFS_def bad_time_file_def boot_state_def
      week_doc_def time_entry_def bell_def parseHH_def parseMM_def digit_at_def
      MAX_EVENTS_PER_DAY_def Let_def upt_rec)

end
